theory Spec2Isabelle
  imports Complex_Main
begin

section \<open>Data model\<close>

text \<open>
  The embedding follows \<^verbatim>\<open>RRT.cpp\<close>, \<^verbatim>\<open>RRT.hpp\<close>, \<^verbatim>\<open>Tree.hpp\<close> and
  \<^verbatim>\<open>LevelData.cpp\<close>. Conventions:
  \<^item> \<^verbatim>\<open>int\<close> (the components of \<^verbatim>\<open>sf::Vector2i\<close>) is \<open>int\<close>. Signed overflow is
    undefined in C++: in \<^verbatim>\<open>calculateBranch\<close> and its \<^verbatim>\<open>lerp\<close> a result outside 32 bits
    is the error \<open>Overflow\<close>; the distances of \<^verbatim>\<open>determineNearest\<close> are not checked;
  \<^item> \<^verbatim>\<open>unsigned int\<close> is \<open>nat\<close>, with the 32-bit wrap-around written out where an
    \<^verbatim>\<open>int\<close> is converted or an index is computed;
  \<^item> \<^verbatim>\<open>float\<close> is IEEE 754 single precision with rounding to nearest, ties to even.
    A \<^verbatim>\<open>float\<close> is the \<open>real\<close> it denotes, and an operation is the exact operation
    followed by the rounding \<open>fl\<close>. Infinities and NaN are not modelled; the parameters of
    the constructor are taken to be finite \<^verbatim>\<open>float\<close> values;
  \<^item> a failed \<^verbatim>\<open>assert\<close>, an access outside a \<^verbatim>\<open>std::vector\<close>, a dereference of a
    pointer to no live object, a remainder by zero and a signed result outside
    \<^verbatim>\<open>int\<close> are values of \<open>error\<close>;
  \<^item> tree nodes live in a store; a pointer is an address of the store;
  \<^item> the two values drawn from \<^verbatim>\<open>rand()\<close> are arguments of \<open>generateBranch\<close>.
\<close>

datatype TileType = Terrain | OutOfBounds | Tree | Swamp | Water

datatype error = AssertionFailed | OutOfRange | InvalidPointer | DivisionByZero | Overflow

type_synonym Vector2i = "int \<times> int"

record LevelData =
  m_width :: nat
  m_height :: nat
  m_tileData :: "TileType list"

text \<open>Conversions between \<^verbatim>\<open>int\<close> and \<^verbatim>\<open>unsigned int\<close> (both 32 bits wide).\<close>

definition to_unsigned :: "int \<Rightarrow> nat" where
  "to_unsigned i = nat (i mod 4294967296)"

definition to_signed :: "nat \<Rightarrow> int" where
  "to_signed n =
     (if n mod 4294967296 < 2147483648 then int (n mod 4294967296)
      else int (n mod 4294967296) - 4294967296)"

text \<open>\<^verbatim>\<open>LevelData::getTile (x, y)\<close>: the assertion, then the unchecked vector access.\<close>

definition getTile :: "LevelData \<Rightarrow> nat \<Rightarrow> nat \<Rightarrow> error + TileType" where
  "getTile L x y =
     (if x < m_width L \<and> y < m_height L then
        (let i = (x + y * m_width L) mod 4294967296
         in if i < length (m_tileData L) then Inr (m_tileData L ! i) else Inl OutOfRange)
      else Inl AssertionFailed)"

text \<open>
  A level as \<^verbatim>\<open>LevelData::readHeader\<close> and \<^verbatim>\<open>readLevel\<close> accept it: positive
  dimensions below \<^verbatim>\<open>INT_MAX\<close> and one tile per cell.
\<close>

definition valid_level :: "LevelData \<Rightarrow> bool" where
  "valid_level L \<longleftrightarrow>
     0 < m_width L \<and> m_width L < 2147483647 \<and>
     0 < m_height L \<and> m_height L < 2147483647 \<and>
     m_width L * m_height L < 4294967296 \<and>
     length (m_tileData L) = m_width L * m_height L"

definition in_bounds :: "LevelData \<Rightarrow> Vector2i \<Rightarrow> bool" where
  "in_bounds L p \<longleftrightarrow>
     0 \<le> fst p \<and> fst p < int (m_width L) \<and> 0 \<le> snd p \<and> snd p < int (m_height L)"

text \<open>The flat index \<^verbatim>\<open>p.x + p.y * width\<close>, computed in \<^verbatim>\<open>unsigned int\<close>.\<close>

definition flatIndex :: "nat \<Rightarrow> Vector2i \<Rightarrow> nat" where
  "flatIndex width p = (to_unsigned (fst p) + to_unsigned (snd p) * width) mod 4294967296"

section \<open>Passability\<close>

text \<open>The \<^verbatim>\<open>switch\<close> of \<^verbatim>\<open>RRT::isValidTile\<close> on the base tile.\<close>

fun passable :: "TileType \<Rightarrow> TileType \<Rightarrow> bool" where
  "passable OutOfBounds type = (type \<noteq> OutOfBounds \<and> type \<noteq> Tree)"
| "passable Tree type = (type \<noteq> OutOfBounds \<and> type \<noteq> Tree)"
| "passable Water type = (type = Water)"
| "passable base type = (type = Terrain \<or> type = Swamp)"

definition isValidTile :: "LevelData \<Rightarrow> Vector2i \<Rightarrow> TileType \<Rightarrow> error + bool" where
  "isValidTile L position base =
     (case getTile L (to_unsigned (fst position)) (to_unsigned (snd position)) of
        Inl e \<Rightarrow> Inl e
      | Inr type \<Rightarrow> Inr (passable base type))"

section \<open>The tree container\<close>

text \<open>
  \<^verbatim>\<open>Tree<T>\<close> of \<^verbatim>\<open>Tree.hpp\<close>, at \<^verbatim>\<open>T = sf::Vector2i\<close>. A \<^verbatim>\<open>Tree<T>*\<close> is an address
  of the store; \<open>None\<close> in the store is a freed or never allocated cell, and \<^verbatim>\<open>new\<close>
  takes the first address past the store.
\<close>

record 'a Tree =
  m_data :: 'a
  m_parent :: "nat option"
  m_branches :: "nat list"

type_synonym RRTTree = "Vector2i Tree"

type_synonym store = "RRTTree option list"

definition deref :: "store \<Rightarrow> nat \<Rightarrow> RRTTree option" where
  "deref h a = (if a < length h then h ! a else None)"

text \<open>\<^verbatim>\<open>new RRTTree()\<close>: value-initialised data, no parent, no branches.\<close>

definition Tree_new :: "store \<Rightarrow> nat \<times> store" where
  "Tree_new h = (length h, h @ [Some \<lparr>m_data = (0, 0), m_parent = None, m_branches = []\<rparr>])"

definition setData :: "store \<Rightarrow> nat \<Rightarrow> Vector2i \<Rightarrow> error + store" where
  "setData h this d =
     (case deref h this of
        None \<Rightarrow> Inl InvalidPointer
      | Some n \<Rightarrow> Inr (h[this := Some (n\<lparr>m_data := d\<rparr>)]))"

text \<open>\<^verbatim>\<open>Tree::clear\<close> empties the vector of branches; it deletes no child.\<close>

definition Tree_clear :: "store \<Rightarrow> nat \<Rightarrow> error + store" where
  "Tree_clear h this =
     (case deref h this of
        None \<Rightarrow> Inl InvalidPointer
      | Some n \<Rightarrow> Inr (h[this := Some (n\<lparr>m_branches := []\<rparr>)]))"

text \<open>
  \<^verbatim>\<open>addBranch (branch)\<close>: \<^verbatim>\<open>m_branches.push_back (branch)\<close>, then
  \<^verbatim>\<open>m_branches.back()->m_parent = this\<close>.
\<close>

definition addBranch :: "store \<Rightarrow> nat \<Rightarrow> nat \<Rightarrow> error + store" where
  "addBranch h this branch =
     (case deref h this of
        None \<Rightarrow> Inl InvalidPointer
      | Some n \<Rightarrow>
          (let h1 = h[this := Some (n\<lparr>m_branches := m_branches n @ [branch]\<rparr>)]
           in case deref h1 branch of
                None \<Rightarrow> Inl InvalidPointer
              | Some c \<Rightarrow> Inr (h1[branch := Some (c\<lparr>m_parent := Some this\<rparr>)])))"

text \<open>
  \<^verbatim>\<open>delete branch\<close>: the destructor deletes every child, then the node is freed. The
  recursion is bounded by the size of the store.
\<close>

fun destroy :: "nat \<Rightarrow> store \<Rightarrow> nat \<Rightarrow> store" where
  "destroy 0 h a = h"
| "destroy (Suc fuel) h a =
     (case deref h a of
        None \<Rightarrow> h
      | Some n \<Rightarrow> (fold (\<lambda>c h'. destroy fuel h' c) (m_branches n) h)[a := None])"

definition Tree_delete :: "store \<Rightarrow> nat \<Rightarrow> store" where
  "Tree_delete h a = destroy (length h) h a"

text \<open>
  The copy assignment \<^verbatim>\<open>Tree<T>::operator= (const Tree<T>&)\<close>. Its only statement is
  \<^verbatim>\<open>branches = copy.m_branches\<close>; \<^verbatim>\<open>branches\<close> is read as the member \<^verbatim>\<open>m_branches\<close>.
  The vector of child pointers is copied; \<^verbatim>\<open>m_data\<close> and \<^verbatim>\<open>m_parent\<close> are not assigned.
\<close>

definition Tree_assign :: "store \<Rightarrow> nat \<Rightarrow> nat \<Rightarrow> error + store" where
  "Tree_assign h this copy =
     (if this \<noteq> copy then
        (case deref h copy of
           None \<Rightarrow> Inl InvalidPointer
         | Some c \<Rightarrow>
             (case deref h this of
                None \<Rightarrow> Inl InvalidPointer
              | Some n \<Rightarrow> Inr (h[this := Some (n\<lparr>m_branches := m_branches c\<rparr>)])))
      else Inr h)"

text \<open>The copy constructor: a default-initialised node, then \<^verbatim>\<open>*this = copy\<close>.\<close>

definition Tree_copy :: "store \<Rightarrow> nat \<Rightarrow> error + nat \<times> store" where
  "Tree_copy h copy =
     (case Tree_new h of
        (this, h1) \<Rightarrow>
          (case Tree_assign h1 this copy of
             Inl e \<Rightarrow> Inl e
           | Inr h2 \<Rightarrow> Inr (this, h2)))"

section \<open>Single precision\<close>

text \<open>
  Rounding to the nearest integer, a tie going to the even one.
\<close>

definition round_even :: "real \<Rightarrow> int" where
  "round_even x =
     (let f = \<lfloor>x\<rfloor>; r = x - of_int f
      in if r < 1 / 2 then f else if 1 / 2 < r then f + 1 else if even f then f else f + 1)"

text \<open>
  The exponent of the binade of \<open>x\<close>, not below that of the subnormal numbers, and the
  distance \<open>ulp\<close> of two neighbouring \<^verbatim>\<open>float\<close> values there (a significand of 24 bits).
\<close>

definition fexp :: "real \<Rightarrow> int" where
  "fexp x = max \<lfloor>log 2 \<bar>x\<bar>\<rfloor> (- 126)"

definition ulp :: "real \<Rightarrow> real" where
  "ulp x = 2 powr (of_int (fexp x) - 23)"

text \<open>The \<^verbatim>\<open>float\<close> nearest to \<open>x\<close>.\<close>

definition fl :: "real \<Rightarrow> real" where
  "fl x = (if x = 0 then 0 else of_int (round_even (x / ulp x)) * ulp x)"

text \<open>The values of \<^verbatim>\<open>int\<close>.\<close>

definition int32 :: "int \<Rightarrow> bool" where
  "int32 i \<longleftrightarrow> - 2147483648 \<le> i \<and> i \<le> 2147483647"

section \<open>The growth engine\<close>

text \<open>
  The members of \<^verbatim>\<open>RRT\<close>. \<^verbatim>\<open>RRT::m_data\<close> is \<open>m_level\<close> here (\<open>m_data\<close> is the field
  of \<^verbatim>\<open>Tree\<close>); it is null until \<^verbatim>\<open>prepareTree\<close>. \<open>heap\<close> is the store of tree nodes.
\<close>

record RRT =
  m_level :: "LevelData option"
  m_start :: Vector2i
  m_end :: Vector2i
  m_sampleDistance :: real
  m_branchDistance :: real
  m_nodes :: "nat option list"
  m_tree :: nat
  heap :: store

text \<open>The constructor \<^verbatim>\<open>RRT (sampleDistance, branchDistance)\<close>.\<close>

definition RRT_init :: "real \<Rightarrow> real \<Rightarrow> error + RRT" where
  "RRT_init sampleDistance branchDistance =
     (if sampleDistance > 0 \<and> branchDistance \<ge> 1 then
        (case Tree_new [] of
           (tree, h) \<Rightarrow>
             Inr \<lparr>m_level = None, m_start = (0, 0), m_end = (0, 0),
                  m_sampleDistance = sampleDistance, m_branchDistance = branchDistance,
                  m_nodes = [], m_tree = tree, heap = h\<rparr>)
      else Inl AssertionFailed)"

text \<open>\<^verbatim>\<open>return m_nodes[start] && m_nodes[end]\<close>: the second slot is read only when
  the first is occupied.\<close>

definition hasFinished :: "RRT \<Rightarrow> error + bool" where
  "hasFinished s =
     (case m_level s of
        None \<Rightarrow> Inl InvalidPointer
      | Some L \<Rightarrow>
          (let width = m_width L;
               start = flatIndex width (m_start s);
               endi = flatIndex width (m_end s)
           in if start < length (m_nodes s) then
                (if m_nodes s ! start \<noteq> None then
                   (if endi < length (m_nodes s) then Inr (m_nodes s ! endi \<noteq> None)
                    else Inl OutOfRange)
                 else Inr False)
              else Inl OutOfRange))"

text \<open>
  \<^verbatim>\<open>prepareTree (data, start, end)\<close>. The assertion is the source's:
  \<^verbatim>\<open>start.x >= 0 && start.x < (int) data->getWidth() && end.x >= 0 && end.y < (int) data->getHeight()\<close>.
\<close>

definition prepareTree :: "RRT \<Rightarrow> LevelData \<Rightarrow> Vector2i \<Rightarrow> Vector2i \<Rightarrow> error + RRT" where
  "prepareTree s data start endp =
     (if fst start \<ge> 0 \<and> fst start < to_signed (m_width data) \<and>
         fst endp \<ge> 0 \<and> snd endp < to_signed (m_height data) then
        (case Tree_clear (heap s) (m_tree s) of
           Inl e \<Rightarrow> Inl e
         | Inr h1 \<Rightarrow>
             (let nodes = replicate (length (m_tileData data) mod 4294967296) None
              in case Tree_new h1 of
                   (tree, h2) \<Rightarrow>
                     (let h3 = Tree_delete h2 (m_tree s)
                      in case setData h3 tree start of
                           Inl e \<Rightarrow> Inl e
                         | Inr h4 \<Rightarrow>
                             (let i = flatIndex (m_width data) start
                              in if i < length nodes then
                                   Inr (s\<lparr>m_level := Some data, m_start := start,
                                          m_end := endp, m_nodes := nodes[i := Some tree],
                                          m_tree := tree, heap := h4\<rparr>)
                                 else Inl OutOfRange))))
      else Inl AssertionFailed)"

text \<open>
  \<^verbatim>\<open>determineNearest\<close>: one pass over \<^verbatim>\<open>m_nodes\<close> in index order, starting from the root
  and \<^verbatim>\<open>INT_MAX\<close>; a slot replaces the closest one only on a strictly smaller distance.
\<close>

fun nearest_scan :: "store \<Rightarrow> Vector2i \<Rightarrow> nat option list \<Rightarrow> nat \<Rightarrow> int \<Rightarrow> error + nat \<times> int" where
  "nearest_scan h position [] closest nearDistance = Inr (closest, nearDistance)"
| "nearest_scan h position (None # rest) closest nearDistance =
     nearest_scan h position rest closest nearDistance"
| "nearest_scan h position (Some branch # rest) closest nearDistance =
     (case deref h branch of
        None \<Rightarrow> Inl InvalidPointer
      | Some n \<Rightarrow>
          (let data = m_data n;
               difference = (fst data - fst position, snd data - snd position);
               distance = \<bar>fst difference\<bar> + \<bar>snd difference\<bar>
           in if distance < nearDistance
              then nearest_scan h position rest branch distance
              else nearest_scan h position rest closest nearDistance))"

definition determineNearest :: "RRT \<Rightarrow> Vector2i \<Rightarrow> error + nat" where
  "determineNearest s position =
     (case nearest_scan (heap s) position (m_nodes s) (m_tree s) 2147483647 of
        Inl e \<Rightarrow> Inl e
      | Inr (closest, nearDistance) \<Rightarrow> Inr closest)"

text \<open>The conversion of a \<^verbatim>\<open>float\<close> to \<^verbatim>\<open>int\<close> truncates toward zero.\<close>

definition trunc :: "real \<Rightarrow> int" where
  "trunc r = (if 0 \<le> r then \<lfloor>r\<rfloor> else \<lceil>r\<rceil>)"

text \<open>
  The lambda \<^verbatim>\<open>lerp\<close> of \<^verbatim>\<open>calculateBranch\<close>:
  \<^verbatim>\<open>sf::Vector2i ((sf::Vector2f) start + (sf::Vector2f) (end - start) * delta)\<close>.
  \<open>lerp_float\<close> is the \<^verbatim>\<open>sf::Vector2f\<close>: both conversions, the product and the sum are
  rounded. The conversion back to \<^verbatim>\<open>int\<close> truncates; it is undefined for a value
  outside \<^verbatim>\<open>int\<close>, and so is a difference \<^verbatim>\<open>end - start\<close> outside \<^verbatim>\<open>int\<close>.
\<close>

definition lerp_float :: "Vector2i \<Rightarrow> Vector2i \<Rightarrow> real \<Rightarrow> real \<times> real" where
  "lerp_float start endp delta =
     (fl (fl (real_of_int (fst start)) + fl (fl (real_of_int (fst endp - fst start)) * delta)),
      fl (fl (real_of_int (snd start)) + fl (fl (real_of_int (snd endp - snd start)) * delta)))"

definition lerp :: "Vector2i \<Rightarrow> Vector2i \<Rightarrow> real \<Rightarrow> error + Vector2i" where
  "lerp start endp delta =
     (if int32 (fst endp - fst start) \<and> int32 (snd endp - snd start) then
        (let p = lerp_float start endp delta
         in if int32 (trunc (fst p)) \<and> int32 (trunc (snd p))
            then Inr (trunc (fst p), trunc (snd p))
            else Inl Overflow)
      else Inl Overflow)"

text \<open>
  The \<^verbatim>\<open>while\<close> loop of \<^verbatim>\<open>calculateBranch\<close>. Its state is the cursor \<open>current\<close>, the
  pointer \<open>branch\<close> (null until the first valid sample) and the store. The sum
  \<^verbatim>\<open>current + m_sampleDistance\<close> and the quotient \<^verbatim>\<open>current / magnitude\<close> are rounded;
  \<^verbatim>\<open>std::fmin\<close> is exact. \<open>None\<close> is a loop that does not return.
\<close>

partial_function (option) calculateBranch_loop ::
  "LevelData \<Rightarrow> real \<Rightarrow> real \<Rightarrow> Vector2i \<Rightarrow> Vector2i \<Rightarrow> TileType \<Rightarrow> real \<Rightarrow>
   real \<Rightarrow> nat option \<Rightarrow> store \<Rightarrow> (error + nat option \<times> store) option" where
  "calculateBranch_loop L sampleDistance branchDistance start endp startType magnitude
     current branch h =
     (if current < magnitude \<and> current < branchDistance then
        (let current' = min (min (fl (current + sampleDistance)) magnitude) branchDistance
         in case lerp start endp (fl (current' / magnitude)) of
              Inl e \<Rightarrow> Some (Inl e)
            | Inr inc \<Rightarrow>
                if inc \<noteq> start then
                  (case isValidTile L inc startType of
                     Inl e \<Rightarrow> Some (Inl e)
                   | Inr valid \<Rightarrow>
                       if valid then
                         (case (case branch of None \<Rightarrow> Tree_new h | Some b \<Rightarrow> (b, h)) of
                            (b, h1) \<Rightarrow>
                              (case setData h1 b inc of
                                 Inl e \<Rightarrow> Some (Inl e)
                               | Inr h2 \<Rightarrow>
                                   calculateBranch_loop L sampleDistance branchDistance start
                                     endp startType magnitude current' (Some b) h2))
                       else Some (Inr (branch, h)))
                else calculateBranch_loop L sampleDistance branchDistance start endp
                       startType magnitude current' branch h)
      else Some (Inr (branch, h)))"

text \<open>
  \<^verbatim>\<open>calculateBranch (start, end)\<close>: the tile at the start, then
  \<^verbatim>\<open>std::sqrt ((float) (difference.x * difference.x + difference.y * difference.y))\<close> with
  the products and the sum in \<^verbatim>\<open>int\<close>, the conversion and the root rounded.
\<close>

definition calculateBranch ::
  "RRT \<Rightarrow> Vector2i \<Rightarrow> Vector2i \<Rightarrow> (error + nat option \<times> store) option" where
  "calculateBranch s start endp =
     (case m_level s of
        None \<Rightarrow> Some (Inl InvalidPointer)
      | Some L \<Rightarrow>
          (case getTile L (to_unsigned (fst start)) (to_unsigned (snd start)) of
             Inl e \<Rightarrow> Some (Inl e)
           | Inr startType \<Rightarrow>
               (let difference = (fst endp - fst start, snd endp - snd start);
                    square = fst difference * fst difference + snd difference * snd difference
                in if int32 (fst difference) \<and> int32 (snd difference) \<and>
                      int32 (fst difference * fst difference) \<and>
                      int32 (snd difference * snd difference) \<and> int32 square
                   then
                     (let magnitude = fl (sqrt (fl (real_of_int square)))
                      in calculateBranch_loop L (m_sampleDistance s) (m_branchDistance s)
                           start endp startType magnitude 0 None (heap s))
                   else Some (Inl Overflow))))"

text \<open>
  \<^verbatim>\<open>generateBranch\<close>; \<open>r1\<close> and \<open>r2\<close> are the two values of \<^verbatim>\<open>rand()\<close>.
\<close>

definition generateBranch :: "RRT \<Rightarrow> nat \<Rightarrow> nat \<Rightarrow> (error + RRT) option" where
  "generateBranch s r1 r2 =
     (case hasFinished s of
        Inl e \<Rightarrow> Some (Inl e)
      | Inr finished \<Rightarrow>
          if \<not> finished \<and> m_start s \<noteq> m_end s then
            (case m_level s of
               None \<Rightarrow> Some (Inl InvalidPointer)
             | Some L \<Rightarrow>
                 (let width = m_width L; height = m_height L
                  in if width = 0 \<or> height = 0 then Some (Inl DivisionByZero)
                     else
                       (let random = (to_signed (r1 mod width), to_signed (r2 mod height));
                            ri = flatIndex width random
                        in if length (m_nodes s) \<le> ri then Some (Inl OutOfRange)
                           else if m_nodes s ! ri = None then
                             (case determineNearest s random of
                                Inl e \<Rightarrow> Some (Inl e)
                              | Inr nearest \<Rightarrow>
                                  (case deref (heap s) nearest of
                                     None \<Rightarrow> Some (Inl InvalidPointer)
                                   | Some nearNode \<Rightarrow>
                                       (case calculateBranch s (m_data nearNode) random of
                                          None \<Rightarrow> None
                                        | Some (Inl e) \<Rightarrow> Some (Inl e)
                                        | Some (Inr (None, h1)) \<Rightarrow> Some (Inr (s\<lparr>heap := h1\<rparr>))
                                        | Some (Inr (Some branch, h1)) \<Rightarrow>
                                            (case deref h1 branch of
                                               None \<Rightarrow> Some (Inl InvalidPointer)
                                             | Some newNode \<Rightarrow>
                                                 (let index = flatIndex width (m_data newNode)
                                                  in if length (m_nodes s) \<le> index
                                                     then Some (Inl OutOfRange)
                                                     else if m_nodes s ! index = None then
                                                       (case addBranch h1 nearest branch of
                                                          Inl e \<Rightarrow> Some (Inl e)
                                                        | Inr h2 \<Rightarrow>
                                                            Some (Inr (s\<lparr>m_nodes :=
                                                              (m_nodes s)[index := Some branch],
                                                              heap := h2\<rparr>)))
                                                     else Some (Inr (s\<lparr>heap :=
                                                            Tree_delete h1 branch\<rparr>)))))))
                           else Some (Inr s))))
          else Some (Inr s))"

text \<open>Successive calls, one pair of random values each (the caller's loop).\<close>

fun generateBranches :: "RRT \<Rightarrow> (nat \<times> nat) list \<Rightarrow> (error + RRT) option" where
  "generateBranches s [] = Some (Inr s)"
| "generateBranches s ((r1, r2) # rs) =
     (case generateBranch s r1 r2 of
        None \<Rightarrow> None
      | Some (Inl e) \<Rightarrow> Some (Inl e)
      | Some (Inr s') \<Rightarrow> generateBranches s' rs)"

section \<open>Notions of the specification\<close>

definition manhattan :: "Vector2i \<Rightarrow> Vector2i \<Rightarrow> int" where
  "manhattan a b = \<bar>fst a - fst b\<bar> + \<bar>snd a - snd b\<bar>"

definition node_distance :: "store \<Rightarrow> Vector2i \<Rightarrow> nat \<Rightarrow> int" where
  "node_distance h position a =
     (case deref h a of None \<Rightarrow> 0 | Some n \<Rightarrow> manhattan (m_data n) position)"

definition segment_length :: "Vector2i \<Rightarrow> Vector2i \<Rightarrow> real" where
  "segment_length start endp =
     sqrt (real_of_int ((fst endp - fst start) * (fst endp - fst start)
                        + (snd endp - snd start) * (snd endp - snd start)))"

definition squared_length :: "Vector2i \<Rightarrow> Vector2i \<Rightarrow> int" where
  "squared_length start endp =
     (fst endp - fst start) * (fst endp - fst start)
     + (snd endp - snd start) * (snd endp - snd start)"

text \<open>The magnitude as \<open>calculateBranch\<close> computes it.\<close>

definition magnitude :: "Vector2i \<Rightarrow> Vector2i \<Rightarrow> real" where
  "magnitude start endp = fl (sqrt (fl (real_of_int (squared_length start endp))))"

text \<open>
  The cursor of the sampling loop after \<open>k\<close> iterations; the loop is \<open>running\<close> at \<open>k\<close>
  when its test succeeds there, and it \<open>stops_at\<close> \<open>N\<close> when the test fails for the first
  time after \<open>N\<close> iterations.
\<close>

fun cursor :: "real \<Rightarrow> real \<Rightarrow> real \<Rightarrow> nat \<Rightarrow> real" where
  "cursor sampleDistance branchDistance mag 0 = 0"
| "cursor sampleDistance branchDistance mag (Suc k) =
     min (min (fl (cursor sampleDistance branchDistance mag k + sampleDistance)) mag)
       branchDistance"

definition running :: "real \<Rightarrow> real \<Rightarrow> real \<Rightarrow> nat \<Rightarrow> bool" where
  "running sampleDistance branchDistance mag k \<longleftrightarrow>
     cursor sampleDistance branchDistance mag k < mag \<and>
     cursor sampleDistance branchDistance mag k < branchDistance"

definition stops_at :: "real \<Rightarrow> real \<Rightarrow> real \<Rightarrow> nat \<Rightarrow> bool" where
  "stops_at sampleDistance branchDistance mag N \<longleftrightarrow>
     (\<forall>k < N. running sampleDistance branchDistance mag k) \<and>
     \<not> running sampleDistance branchDistance mag N"

text \<open>
  The cursor without rounding, and the number of steps it takes. Both agree with the
  loop when the sums of the loop are exact (\<open>exact_steps\<close>): the step is a multiple
  \<open>m / 2 ^ j\<close> of a power of two, and the cursor stays below \<open>2 ^ 24\<close> such units.
\<close>

definition cursor_at :: "real \<Rightarrow> real \<Rightarrow> real \<Rightarrow> nat \<Rightarrow> real" where
  "cursor_at sampleDistance branchDistance mag k =
     min (min (real k * sampleDistance) mag) branchDistance"

definition sample_count :: "real \<Rightarrow> real \<Rightarrow> real \<Rightarrow> nat" where
  "sample_count sampleDistance branchDistance mag =
     nat \<lceil>min mag branchDistance / sampleDistance\<rceil>"

definition exact_steps :: "real \<Rightarrow> real \<Rightarrow> bool" where
  "exact_steps sampleDistance limit \<longleftrightarrow>
     (\<exists>m j. 0 < m \<and> j \<le> 149 \<and> sampleDistance = real m / 2 ^ j \<and>
        limit * 2 ^ j + real m \<le> 16777216)"

text \<open>
  Inputs of the sampling loop for which every coordinate is a \<^verbatim>\<open>float\<close>: a well-formed
  level at most \<open>2 ^ 24\<close> wide and high, start and target inside it.
\<close>

definition safe_input :: "LevelData \<Rightarrow> real \<Rightarrow> Vector2i \<Rightarrow> Vector2i \<Rightarrow> bool" where
  "safe_input L sd start endp \<longleftrightarrow>
     valid_level L \<and> m_width L \<le> 16777216 \<and> m_height L \<le> 16777216 \<and>
     in_bounds L start \<and> in_bounds L endp \<and> 0 \<le> sd"

text \<open>The candidate of iteration \<open>k\<close>, and the candidates of the first \<open>N\<close> iterations.\<close>

definition candidate :: "real \<Rightarrow> real \<Rightarrow> Vector2i \<Rightarrow> Vector2i \<Rightarrow> nat \<Rightarrow> Vector2i" where
  "candidate sampleDistance branchDistance start endp k =
     (let p = lerp_float start endp
                (fl (cursor sampleDistance branchDistance (magnitude start endp) k
                     / magnitude start endp))
      in (trunc (fst p), trunc (snd p)))"

definition candidates :: "real \<Rightarrow> real \<Rightarrow> Vector2i \<Rightarrow> Vector2i \<Rightarrow> nat \<Rightarrow> Vector2i list" where
  "candidates sampleDistance branchDistance start endp N =
     map (candidate sampleDistance branchDistance start endp) [1 ..< Suc N]"

definition samples_after ::
  "real \<Rightarrow> real \<Rightarrow> Vector2i \<Rightarrow> Vector2i \<Rightarrow> nat \<Rightarrow> nat \<Rightarrow> Vector2i list" where
  "samples_after sampleDistance branchDistance start endp N k =
     map (candidate sampleDistance branchDistance start endp) [Suc k ..< Suc N]"

definition branch_end :: "LevelData \<Rightarrow> TileType \<Rightarrow> Vector2i \<Rightarrow> Vector2i list \<Rightarrow> Vector2i option" where
  "branch_end L base start cs =
     (let vs = takeWhile (\<lambda>c. isValidTile L c base = Inr True) (filter (\<lambda>c. c \<noteq> start) cs)
      in if vs = [] then None else Some (last vs))"

definition branch_data :: "store \<Rightarrow> nat option \<Rightarrow> Vector2i option" where
  "branch_data h branch =
     (case branch of None \<Rightarrow> None | Some b \<Rightarrow> map_option m_data (deref h b))"

fun walk :: "LevelData \<Rightarrow> TileType \<Rightarrow> Vector2i \<Rightarrow> Vector2i list \<Rightarrow> Vector2i option \<Rightarrow> Vector2i option" where
  "walk L base start [] v = v"
| "walk L base start (c # cs) v =
     (if c \<noteq> start then
        (if isValidTile L c base = Inr True then walk L base start cs (Some c) else v)
      else walk L base start cs v)"

definition holds :: "store \<Rightarrow> Vector2i option \<Rightarrow> nat option \<Rightarrow> store \<Rightarrow> bool" where
  "holds h0 v branch h =
     (case v of
        None \<Rightarrow> branch = None \<and> h = h0
      | Some c \<Rightarrow> branch = Some (length h0) \<and>
                  h = h0 @ [Some \<lparr>m_data = c, m_parent = None, m_branches = []\<rparr>])"

inductive_set tree_nodes :: "store \<Rightarrow> nat \<Rightarrow> nat set" for h :: store and r :: nat where
  root: "deref h r \<noteq> None \<Longrightarrow> r \<in> tree_nodes h r"
| child: "a \<in> tree_nodes h r \<Longrightarrow> deref h a = Some n \<Longrightarrow> c \<in> set (m_branches n)
          \<Longrightarrow> c \<in> tree_nodes h r"

definition consistent :: "RRT \<Rightarrow> bool" where
  "consistent s \<longleftrightarrow>
     (\<exists>L. m_level s = Some L \<and>
        (\<forall>i a. i < length (m_nodes s) \<and> m_nodes s ! i = Some a \<longrightarrow>
           a \<in> tree_nodes (heap s) (m_tree s) \<and>
           (\<exists>n. deref (heap s) a = Some n \<and> flatIndex (m_width L) (m_data n) = i)) \<and>
        (\<forall>a. a \<in> tree_nodes (heap s) (m_tree s) \<longrightarrow>
           (\<exists>n. deref (heap s) a = Some n \<and>
                flatIndex (m_width L) (m_data n) < length (m_nodes s) \<and>
                m_nodes s ! flatIndex (m_width L) (m_data n) = Some a)))"

inductive reachable :: "RRT \<Rightarrow> bool" where
  prepare: "prepareTree s0 L start goal = Inr s \<Longrightarrow> reachable s"
| grow: "reachable s \<Longrightarrow> generateBranch s r1 r2 = Some (Inr s') \<Longrightarrow> reachable s'"

definition occupancy_matches_tree :: "RRT \<Rightarrow> bool" where
  "occupancy_matches_tree s \<longleftrightarrow>
     (\<exists>L. m_level s = Some L \<and>
        (\<forall>i. i < length (m_nodes s) \<longrightarrow>
           (m_nodes s ! i \<noteq> None) =
           (\<exists>a n. a \<in> tree_nodes (heap s) (m_tree s) \<and> deref (heap s) a = Some n \<and>
                  flatIndex (m_width L) (m_data n) = i)) \<and>
        (\<forall>a. a \<in> tree_nodes (heap s) (m_tree s) \<longrightarrow>
           (\<exists>n. deref (heap s) a = Some n \<and>
                flatIndex (m_width L) (m_data n) < length (m_nodes s))) \<and>
        (\<forall>a b n m. a \<in> tree_nodes (heap s) (m_tree s) \<and> b \<in> tree_nodes (heap s) (m_tree s) \<and>
           deref (heap s) a = Some n \<and> deref (heap s) b = Some m \<and> m_data n = m_data m
           \<longrightarrow> a = b))"

definition unchanged :: "RRT \<Rightarrow> RRT \<Rightarrow> bool" where
  "unchanged s s' \<longleftrightarrow>
     m_nodes s' = m_nodes s \<and> m_tree s' = m_tree s \<and>
     tree_nodes (heap s') (m_tree s') = tree_nodes (heap s) (m_tree s) \<and>
     (\<forall>a. deref (heap s') a = deref (heap s) a)"

definition grafted :: "RRT \<Rightarrow> RRT \<Rightarrow> bool" where
  "grafted s s' \<longleftrightarrow>
     (\<exists>L b p pn c.
        m_level s = Some L \<and>
        b \<notin> tree_nodes (heap s) (m_tree s) \<and> deref (heap s) b = None \<and>
        p \<in> tree_nodes (heap s) (m_tree s) \<and> deref (heap s) p = Some pn \<and>
        m_tree s' = m_tree s \<and>
        tree_nodes (heap s') (m_tree s') = insert b (tree_nodes (heap s) (m_tree s)) \<and>
        deref (heap s') b = Some \<lparr>m_data = c, m_parent = Some p, m_branches = []\<rparr> \<and>
        deref (heap s') p = Some (pn\<lparr>m_branches := m_branches pn @ [b]\<rparr>) \<and>
        (\<forall>a. a \<noteq> b \<and> a \<noteq> p \<longrightarrow> deref (heap s') a = deref (heap s) a) \<and>
        flatIndex (m_width L) c < length (m_nodes s) \<and>
        m_nodes s ! flatIndex (m_width L) c = None \<and>
        m_nodes s' = (m_nodes s)[flatIndex (m_width L) c := Some b])"

text \<open>
  A state of a session prepared with start and goal inside a well-formed level
  (\<open>well_formed\<close>), and a session whose level is small enough for the squared lengths
  to fit \<^verbatim>\<open>int\<close> and whose sampling is exact (\<open>exact_sampling\<close>).
\<close>

definition well_formed :: "RRT \<Rightarrow> bool" where
  "well_formed s \<longleftrightarrow>
     (\<exists>L. m_level s = Some L \<and> valid_level L \<and> 0 < m_sampleDistance s \<and>
        length (m_nodes s) = m_width L * m_height L \<and>
        in_bounds L (m_start s) \<and> in_bounds L (m_end s) \<and>
        consistent s \<and> deref (heap s) (m_tree s) \<noteq> None \<and>
        (\<forall>a n. a \<in> tree_nodes (heap s) (m_tree s) \<and> deref (heap s) a = Some n \<longrightarrow>
           in_bounds L (m_data n)))"

definition exact_sampling :: "RRT \<Rightarrow> bool" where
  "exact_sampling s \<longleftrightarrow>
     (\<exists>L. m_level s = Some L \<and> m_width L \<le> 32768 \<and> m_height L \<le> 32768) \<and>
     exact_steps (m_sampleDistance s) (m_branchDistance s)"

section \<open>Concrete inputs\<close>

text \<open>A level of two rows: \<^verbatim>\<open>Terrain Water\<close> over \<^verbatim>\<open>Swamp Tree\<close>.\<close>

definition level2x2 :: LevelData where
  "level2x2 = \<lparr>m_width = 2, m_height = 2, m_tileData = [Terrain, Water, Swamp, Tree]\<rparr>"

text \<open>
  A session on a 3 by 3 level of terrain: the root at \<open>(0, 0)\<close> with the children
  \<open>(2, 0)\<close> and \<open>(0, 2)\<close>.
\<close>

definition level3x3 :: LevelData where
  "level3x3 = \<lparr>m_width = 3, m_height = 3, m_tileData = replicate 9 Terrain\<rparr>"

definition session3x3 :: RRT where
  "session3x3 =
     \<lparr>m_level = Some level3x3, m_start = (0, 0), m_end = (2, 2),
      m_sampleDistance = 1 / 4, m_branchDistance = 15,
      m_nodes = [Some 1, None, Some 2, None, None, None, Some 3, None, None],
      m_tree = 1,
      heap = [None,
              Some \<lparr>m_data = (0, 0), m_parent = None, m_branches = [2, 3]\<rparr>,
              Some \<lparr>m_data = (2, 0), m_parent = Some 1, m_branches = []\<rparr>,
              Some \<lparr>m_data = (0, 2), m_parent = Some 1, m_branches = []\<rparr>]\<rparr>"

definition rrt0 :: RRT where
  "rrt0 = \<lparr>m_level = None, m_start = (0, 0), m_end = (0, 0),
           m_sampleDistance = 1 / 4, m_branchDistance = 15,
           m_nodes = [], m_tree = 0,
           heap = [Some \<lparr>m_data = (0, 0), m_parent = None, m_branches = []\<rparr>]\<rparr>"

definition prepared3x3 :: RRT where
  "prepared3x3 =
     \<lparr>m_level = Some level3x3, m_start = (0, 0), m_end = (2, 2),
      m_sampleDistance = 1 / 4, m_branchDistance = 15,
      m_nodes = [Some 1, None, None, None, None, None, None, None, None],
      m_tree = 1,
      heap = [None, Some \<lparr>m_data = (0, 0), m_parent = None, m_branches = []\<rparr>]\<rparr>"

definition grown3x3 :: RRT where
  "grown3x3 =
     \<lparr>m_level = Some level3x3, m_start = (0, 0), m_end = (2, 2),
      m_sampleDistance = 1 / 4, m_branchDistance = 15,
      m_nodes = [Some 1, None, Some 2, None, None, None, None, None, None],
      m_tree = 1,
      heap = [None, Some \<lparr>m_data = (0, 0), m_parent = None, m_branches = [2]\<rparr>,
              Some \<lparr>m_data = (2, 0), m_parent = Some 1, m_branches = []\<rparr>]\<rparr>"

definition finished3x3 :: RRT where
  "finished3x3 =
     \<lparr>m_level = Some level3x3, m_start = (1, 1), m_end = (1, 1),
      m_sampleDistance = 1 / 4, m_branchDistance = 15,
      m_nodes = [None, None, None, None, Some 1, None, None, None, None],
      m_tree = 1,
      heap = [None, Some \<lparr>m_data = (1, 1), m_parent = None, m_branches = []\<rparr>]\<rparr>"

definition level5x1 :: LevelData where
  "level5x1 = \<lparr>m_width = 5, m_height = 1,
                m_tileData = [Terrain, Terrain, Terrain, Tree, Terrain]\<rparr>"

definition prepared5x1 :: RRT where
  "prepared5x1 =
     \<lparr>m_level = Some level5x1, m_start = (0, 0), m_end = (4, 0),
      m_sampleDistance = 1 / 4, m_branchDistance = 15,
      m_nodes = [Some 1, None, None, None, None],
      m_tree = 1,
      heap = [None, Some \<lparr>m_data = (0, 0), m_parent = None, m_branches = []\<rparr>]\<rparr>"

definition level9x16 :: LevelData where
  "level9x16 = \<lparr>m_width = 9, m_height = 16, m_tileData = replicate 144 Terrain\<rparr>"

definition prepared9x16 :: RRT where
  "prepared9x16 =
     \<lparr>m_level = Some level9x16, m_start = (8, 15), m_end = (0, 0),
      m_sampleDistance = 1 / 4, m_branchDistance = 15,
      m_nodes = (replicate 144 None)[143 := Some 1],
      m_tree = 1,
      heap = [None, Some \<lparr>m_data = (8, 15), m_parent = None, m_branches = []\<rparr>]\<rparr>"

definition grown9x16 :: RRT where
  "grown9x16 =
     \<lparr>m_level = Some level9x16, m_start = (8, 15), m_end = (0, 0),
      m_sampleDistance = 1 / 4, m_branchDistance = 15,
      m_nodes = (replicate 144 None)[143 := Some 1, 9 := Some 2],
      m_tree = 1,
      heap = [None, Some \<lparr>m_data = (8, 15), m_parent = None, m_branches = [2]\<rparr>,
              Some \<lparr>m_data = (0, 1), m_parent = Some 1, m_branches = []\<rparr>]\<rparr>"

definition family :: store where
  "family = [Some \<lparr>m_data = (1, 2), m_parent = None, m_branches = [1]\<rparr>,
             Some \<lparr>m_data = (3, 4), m_parent = Some 0, m_branches = []\<rparr>]"



text \<open>The session on the 3 by 3 level with a sample step of \<open>2 ^ -30\<close>.\<close>

definition slow3x3 :: RRT where
  "slow3x3 = prepared3x3\<lparr>m_sampleDistance := 1 / 2 ^ 30\<rparr>"

text \<open>A row of 20 tiles of terrain, the start at its right end.\<close>

definition level20x1 :: LevelData where
  "level20x1 = \<lparr>m_width = 20, m_height = 1, m_tileData = replicate 20 Terrain\<rparr>"

definition prepared20x1 :: RRT where
  "prepared20x1 =
     \<lparr>m_level = Some level20x1, m_start = (19, 0), m_end = (0, 0),
      m_sampleDistance = 1 / 4, m_branchDistance = 15,
      m_nodes = (replicate 20 None)[19 := Some 1],
      m_tree = 1,
      heap = [None, Some \<lparr>m_data = (19, 0), m_parent = None, m_branches = []\<rparr>]\<rparr>"

section \<open>Arithmetic of indices\<close>

lemma to_unsigned_in_range: "0 \<le> i \<Longrightarrow> i < 4294967296 \<Longrightarrow> to_unsigned i = nat i"
  by (simp add: to_unsigned_def)

lemma in_bounds_unsigned:
  assumes "valid_level L" and "in_bounds L p"
  shows "to_unsigned (fst p) = nat (fst p)" and "to_unsigned (snd p) = nat (snd p)"
    and "nat (fst p) < m_width L" and "nat (snd p) < m_height L"
  using assms by (auto simp: valid_level_def in_bounds_def to_unsigned_in_range)

lemma cell_index_less:
  fixes x y w h :: nat
  assumes "x < w" and "y < h"
  shows "x + y * w < w * h"
proof -
  have "x + y * w < w + y * w" using assms by simp
  also have "\<dots> = w * Suc y" by simp
  also have "\<dots> \<le> w * h" using assms by (intro mult_le_mono2) simp
  finally show ?thesis .
qed

lemma flatIndex_in_bounds:
  assumes "valid_level L" and "in_bounds L p"
  shows "flatIndex (m_width L) p = nat (fst p) + nat (snd p) * m_width L"
    and "flatIndex (m_width L) p < m_width L * m_height L"
proof -
  have lt: "nat (fst p) + nat (snd p) * m_width L < m_width L * m_height L"
    using in_bounds_unsigned(3,4) [OF assms] by (rule cell_index_less)
  moreover have "m_width L * m_height L < 4294967296"
    using assms(1) by (simp add: valid_level_def)
  ultimately show "flatIndex (m_width L) p = nat (fst p) + nat (snd p) * m_width L"
    by (simp add: flatIndex_def in_bounds_unsigned(1,2) [OF assms])
  with lt show "flatIndex (m_width L) p < m_width L * m_height L" by simp
qed

lemma getTile_in_bounds:
  assumes "valid_level L" and "in_bounds L p"
  shows "getTile L (to_unsigned (fst p)) (to_unsigned (snd p)) =
           Inr (m_tileData L ! (nat (fst p) + nat (snd p) * m_width L))"
proof -
  have lt: "nat (fst p) + nat (snd p) * m_width L < m_width L * m_height L"
    using in_bounds_unsigned(3,4) [OF assms] by (rule cell_index_less)
  moreover have "m_width L * m_height L < 4294967296"
    and "length (m_tileData L) = m_width L * m_height L"
    using assms(1) by (simp_all add: valid_level_def)
  ultimately show ?thesis
    using in_bounds_unsigned [OF assms] by (simp add: getTile_def)
qed

section \<open>Rounding\<close>

lemma round_even_of_int: "round_even (of_int n) = n"
  by (simp add: round_even_def)

lemma round_even_mono:
  assumes "x \<le> y"
  shows "round_even x \<le> round_even y"
proof (cases "\<lfloor>x\<rfloor> = \<lfloor>y\<rfloor>")
  case True
  with assms show ?thesis by (auto simp: round_even_def Let_def)
next
  case False
  with assms have lt: "\<lfloor>x\<rfloor> + 1 \<le> \<lfloor>y\<rfloor>" using floor_mono [OF assms] by linarith
  have "round_even x \<le> \<lfloor>x\<rfloor> + 1" by (simp add: round_even_def Let_def)
  moreover have "\<lfloor>y\<rfloor> \<le> round_even y" by (simp add: round_even_def Let_def)
  ultimately show ?thesis using lt by linarith
qed

lemma round_even_minus: "round_even (- x) = - round_even x"
proof (cases "x \<in> \<int>")
  case True
  then obtain n where "x = of_int n" by (auto elim: Ints_cases)
  then have "- x = of_int (- n)" by simp
  then show ?thesis unfolding \<open>x = of_int n\<close> by (simp only: round_even_of_int)
next
  case False
  then have ne: "x \<noteq> of_int \<lfloor>x\<rfloor>" by (metis Ints_of_int)
  then have f: "\<lfloor>- x\<rfloor> = - \<lfloor>x\<rfloor> - 1"
    by (simp add: floor_minus ceiling_altdef)
  have r: "0 < x - of_int \<lfloor>x\<rfloor>" using ne of_int_floor_le [of x] by linarith
  show ?thesis
    using r by (auto simp: round_even_def Let_def f)
qed


lemma ulp_pos: "0 < ulp x"
  by (simp add: ulp_def)

lemma fexp_minus: "fexp (- x) = fexp x"
  by (simp add: fexp_def)

lemma ulp_minus: "ulp (- x) = ulp x"
  by (simp add: ulp_def fexp_minus)

lemma fl_zero: "fl 0 = 0"
  by (simp add: fl_def)

lemma fl_minus: "fl (- x) = - fl x"
  by (simp add: fl_def ulp_minus round_even_minus)

lemma fexp_binade:
  assumes "2 powr of_int e \<le> \<bar>x\<bar>" and "\<bar>x\<bar> < 2 powr (of_int e + 1)" and "- 126 \<le> e"
  shows "fexp x = e"
proof -
  have "0 < \<bar>x\<bar>" using assms(1) by (smt (verit) powr_gt_zero)
  then have "\<lfloor>log 2 \<bar>x\<bar>\<rfloor> = e"
    using assms(1,2) by (simp add: floor_log_eq_powr_iff)
  with assms(3) show ?thesis by (simp add: fexp_def)
qed

lemma fexp_upper:
  assumes "x \<noteq> 0"
  shows "\<bar>x\<bar> < 2 powr (of_int (fexp x) + 1)"
proof -
  have pos: "0 < \<bar>x\<bar>" using assms by simp
  have "\<bar>x\<bar> < 2 powr (of_int \<lfloor>log 2 \<bar>x\<bar>\<rfloor> + 1)"
    using floor_log_eq_powr_iff [OF pos, of 2 "\<lfloor>log 2 \<bar>x\<bar>\<rfloor>"] by simp
  also have "\<dots> \<le> 2 powr (of_int (fexp x) + 1)"
    by (simp add: fexp_def)
  finally show ?thesis .
qed

lemma fexp_lower:
  assumes "x \<noteq> 0" and "- 126 < fexp x"
  shows "2 powr of_int (fexp x) \<le> \<bar>x\<bar>"
proof -
  have pos: "0 < \<bar>x\<bar>" using assms by simp
  from assms(2) have "fexp x = \<lfloor>log 2 \<bar>x\<bar>\<rfloor>" by (simp add: fexp_def max_def split: if_splits)
  then show ?thesis
    using floor_log_eq_powr_iff [OF pos, of 2 "\<lfloor>log 2 \<bar>x\<bar>\<rfloor>"] by simp
qed

lemma fexp_mono:
  assumes "0 < x" and "x \<le> y"
  shows "fexp x \<le> fexp y"
proof -
  have "log 2 \<bar>x\<bar> \<le> log 2 \<bar>y\<bar>" using assms by simp
  then have "\<lfloor>log 2 \<bar>x\<bar>\<rfloor> \<le> \<lfloor>log 2 \<bar>y\<bar>\<rfloor>" by (rule floor_mono)
  then show ?thesis by (simp add: fexp_def)
qed

lemma fl_nonneg:
  assumes "0 \<le> x"
  shows "0 \<le> fl x"
proof -
  have "0 \<le> x / ulp x" using assms ulp_pos [of x] by simp
  then have "round_even 0 \<le> round_even (x / ulp x)" by (rule round_even_mono)
  then have "0 \<le> round_even (x / ulp x)" by (simp add: round_even_def)
  then show ?thesis using ulp_pos [of x] by (simp add: fl_def)
qed

lemma ulp_scale:
  "2 powr of_int (fexp x) = 8388608 * ulp x"
  "2 powr (of_int (fexp x) + 1) = 16777216 * ulp x"
proof -
  have "(8388608::real) = 2 powr 23" by simp
  then show "2 powr of_int (fexp x) = 8388608 * ulp x"
    unfolding ulp_def by (simp only: powr_add [symmetric]) simp
  have "(16777216::real) = 2 powr 24" by simp
  then show "2 powr (of_int (fexp x) + 1) = 16777216 * ulp x"
    unfolding ulp_def by (simp only: powr_add [symmetric]) (simp add: add.commute)
qed

lemma round_even_upper:
  assumes "x \<noteq> 0"
  shows "real_of_int (round_even (\<bar>x\<bar> / ulp x)) * ulp x \<le> 2 powr (of_int (fexp x) + 1)"
proof -
  have "\<bar>x\<bar> \<le> 16777216 * ulp x"
    using fexp_upper [OF assms] by (simp only: ulp_scale(2))
  then have "\<bar>x\<bar> / ulp x \<le> of_int 16777216"
    using ulp_pos [of x] by (simp add: pos_divide_le_eq)
  then have "round_even (\<bar>x\<bar> / ulp x) \<le> round_even (of_int 16777216)" by (rule round_even_mono)
  then have "round_even (\<bar>x\<bar> / ulp x) \<le> 16777216" by (simp only: round_even_of_int)
  then have "real_of_int (round_even (\<bar>x\<bar> / ulp x)) \<le> 16777216" by linarith
  then have "real_of_int (round_even (\<bar>x\<bar> / ulp x)) * ulp x \<le> 16777216 * ulp x"
    using ulp_pos [of x] by (rule mult_right_mono [OF _ less_imp_le])
  then show ?thesis by (simp only: ulp_scale(2))
qed

lemma round_even_lower:
  assumes "x \<noteq> 0" and "- 126 < fexp x"
  shows "2 powr of_int (fexp x) \<le> real_of_int (round_even (\<bar>x\<bar> / ulp x)) * ulp x"
proof -
  have "8388608 * ulp x \<le> \<bar>x\<bar>"
    using fexp_lower [OF assms] by (simp only: ulp_scale(1))
  then have "of_int 8388608 \<le> \<bar>x\<bar> / ulp x"
    using ulp_pos [of x] by (simp add: pos_le_divide_eq)
  then have "round_even (of_int 8388608) \<le> round_even (\<bar>x\<bar> / ulp x)" by (rule round_even_mono)
  then have "8388608 \<le> round_even (\<bar>x\<bar> / ulp x)" by (simp only: round_even_of_int)
  then have "8388608 \<le> real_of_int (round_even (\<bar>x\<bar> / ulp x))" by linarith
  then have "8388608 * ulp x \<le> real_of_int (round_even (\<bar>x\<bar> / ulp x)) * ulp x"
    using ulp_pos [of x] by (rule mult_right_mono [OF _ less_imp_le])
  then show ?thesis by (simp only: ulp_scale(1))
qed

lemma fl_mono_pos:
  assumes "0 < x" and "x \<le> y"
  shows "fl x \<le> fl y"
proof (cases "fexp x = fexp y")
  case True
  then have u: "ulp x = ulp y" by (simp add: ulp_def)
  have "x / ulp y \<le> y / ulp y" using assms(2) ulp_pos [of y] by (simp add: divide_right_mono)
  then have "round_even (x / ulp y) \<le> round_even (y / ulp y)" by (rule round_even_mono)
  then have "real_of_int (round_even (x / ulp y)) \<le> real_of_int (round_even (y / ulp y))"
    by linarith
  then have "real_of_int (round_even (x / ulp y)) * ulp y \<le> real_of_int (round_even (y / ulp y)) * ulp y"
    using ulp_pos [of y] by (rule mult_right_mono [OF _ less_imp_le])
  with assms show ?thesis by (simp add: fl_def u)
next
  case False
  with fexp_mono [OF assms] have lt: "fexp x + 1 \<le> fexp y" by simp
  have x0: "x \<noteq> 0" and y0: "y \<noteq> 0" and ax: "\<bar>x\<bar> = x" and ay: "\<bar>y\<bar> = y"
    using assms by simp_all
  have "fl x \<le> 2 powr (of_int (fexp x) + 1)"
    using round_even_upper [OF x0] x0 by (simp add: fl_def ax)
  also have "\<dots> \<le> 2 powr of_int (fexp y)"
  proof (rule powr_mono)
    show "real_of_int (fexp x) + 1 \<le> real_of_int (fexp y)" using lt by linarith
  qed simp
  also have "\<dots> \<le> fl y"
  proof -
    from lt have "- 126 < fexp y" by (simp add: fexp_def [of x])
    from round_even_lower [OF y0 this] y0 show ?thesis by (simp add: fl_def ay)
  qed
  finally show ?thesis .
qed

lemma fl_mono:
  assumes "x \<le> y"
  shows "fl x \<le> fl y"
proof -
  consider "0 < x" | "x \<le> 0" "0 \<le> y" | "y < 0" by linarith
  then show ?thesis
  proof cases
    case 1
    then show ?thesis using assms by (rule fl_mono_pos)
  next
    case 2
    then have "0 \<le> fl (- x)" and "0 \<le> fl y" by (simp_all add: fl_nonneg)
    then show ?thesis by (simp add: fl_minus)
  next
    case 3
    then have "fl (- y) \<le> fl (- x)" using assms by (intro fl_mono_pos) simp_all
    then show ?thesis by (simp add: fl_minus)
  qed
qed


lemma fl_fix:
  assumes "x / ulp x \<in> \<int>"
  shows "fl x = x"
proof -
  from assms obtain n where n: "x / ulp x = of_int n" by (auto elim: Ints_cases)
  then have "round_even (x / ulp x) = n" by (simp only: round_even_of_int)
  moreover from n have "x = of_int n * ulp x" using ulp_pos [of x] by (simp add: field_simps)
  ultimately show ?thesis by (simp add: fl_def)
qed

lemma fl_eval:
  assumes "2 powr of_int e \<le> \<bar>x\<bar>" and "\<bar>x\<bar> < 2 powr (of_int e + 1)" and "- 126 \<le> e"
  shows "fl x = of_int (round_even (x / 2 powr (of_int e - 23))) * 2 powr (of_int e - 23)"
proof -
  have "x \<noteq> 0" using assms(1) by (smt (verit) powr_gt_zero)
  then show ?thesis by (simp add: fl_def ulp_def fexp_binade [OF assms])
qed

lemma fl_exact:
  assumes "\<bar>m\<bar> \<le> 16777216" and "k \<le> 149"
  shows "fl (of_int m / 2 ^ k) = of_int m / 2 ^ k"
proof (cases "m = 0")
  case True
  then show ?thesis by (simp add: fl_zero)
next
  case False
  let ?x = "real_of_int m / 2 ^ k"
  have x0: "?x \<noteq> 0" using False by simp
  have pk: "(2::real) ^ k = 2 powr of_int (int k)" by (simp add: powr_realpow)
  show ?thesis
  proof (rule fl_fix, cases "fexp ?x + int k \<le> 23")
    case True
    define j where "j = nat (23 - fexp ?x - int k)"
    define e where "e = real_of_int (fexp ?x)"
    have u: "ulp ?x = 2 powr (e - 23)" by (simp add: ulp_def e_def)
    have "real j = - (real k + (e - 23))" using True by (simp add: j_def e_def)
    then have "(2::real) ^ j = 2 powr (- (real k + (e - 23)))"
      by (simp only: powr_realpow [symmetric, of 2 j, simplified])
    also have "\<dots> = 1 / (2 powr real k * 2 powr (e - 23))"
      by (simp only: powr_minus powr_add) (simp add: field_simps)
    also have "2 powr real k = (2::real) ^ k" by (simp add: powr_realpow)
    finally have "?x / ulp ?x = of_int m * 2 ^ j" by (simp add: u)
    then have "?x / ulp ?x = of_int (m * 2 ^ j)" by simp
    then show "?x / ulp ?x \<in> \<int>" by (simp only: Ints_of_int)
  next
    case big: False
    then have "- 126 < fexp ?x" using assms(2) by linarith
    from fexp_lower [OF x0 this] have "2 powr of_int (fexp ?x) \<le> \<bar>real_of_int m\<bar> / 2 ^ k"
      by (simp add: abs_divide)
    then have "2 powr of_int (fexp ?x) * 2 powr of_int (int k) \<le> \<bar>real_of_int m\<bar>"
      unfolding pk by (simp add: pos_le_divide_eq)
    then have low: "2 powr of_int (fexp ?x + int k) \<le> \<bar>real_of_int m\<bar>"
      by (simp add: powr_add)
    have "\<bar>real_of_int m\<bar> \<le> 2 powr 24" using assms(1) by simp
    with low have "2 powr of_int (fexp ?x + int k) \<le> (2::real) powr 24" by linarith
    then have "real_of_int (fexp ?x + int k) \<le> 24" by (simp only: powr_le_cancel_iff)
    with big have e: "fexp ?x + int k = 24" by linarith
    with low have "16777216 \<le> \<bar>real_of_int m\<bar>" by simp
    with assms(1) have m: "\<bar>real_of_int m\<bar> = 16777216" by linarith
    from e have "real_of_int (fexp ?x) - 23 = 1 - real_of_int (int k)" by linarith
    then have "ulp ?x = 2 / 2 ^ k" unfolding ulp_def pk by (simp add: powr_diff)
    then have "?x / ulp ?x = of_int m / 2" by simp
    moreover from m have "m = 16777216 \<or> m = - 16777216" by linarith
    ultimately have "?x / ulp ?x = of_int 8388608 \<or> ?x / ulp ?x = of_int (- 8388608)" by auto
    then show "?x / ulp ?x \<in> \<int>" by (metis Ints_of_int)
  qed
qed

lemma fl_dyadic:
  assumes "x * 2 ^ k \<in> \<int>" and "\<bar>x * 2 ^ k\<bar> \<le> 16777216" and "k \<le> 149"
  shows "fl x = x"
proof -
  from assms(1) obtain m where m: "x * 2 ^ k = of_int m" by (auto elim: Ints_cases)
  then have x: "x = of_int m / 2 ^ k" by (simp add: field_simps)
  from assms(2) m have "\<bar>m\<bar> \<le> 16777216" by linarith
  from fl_exact [OF this assms(3)] show ?thesis by (simp only: x)
qed

lemma fl_of_int: "\<bar>m\<bar> \<le> 16777216 \<Longrightarrow> fl (of_int m) = of_int m"
  using fl_exact [of m 0] by simp

lemma fl_one: "fl 1 = 1"
  using fl_of_int [of 1] by simp

section \<open>Lemmas\<close>

lemma nearest_scan_split:
  assumes "\<forall>a. Some a \<in> set xs \<longrightarrow> deref h a \<noteq> None"
  shows "(\<exists>pre c post. xs = pre @ Some c # post \<and>
            nearest_scan h p xs closest nd = Inr (c, node_distance h p c) \<and>
            node_distance h p c < nd \<and>
            (\<forall>b. Some b \<in> set pre \<longrightarrow> node_distance h p c < node_distance h p b) \<and>
            (\<forall>b. Some b \<in> set post \<longrightarrow> node_distance h p c \<le> node_distance h p b))
         \<or> (nearest_scan h p xs closest nd = Inr (closest, nd) \<and>
            (\<forall>b. Some b \<in> set xs \<longrightarrow> nd \<le> node_distance h p b))"
  using assms
proof (induction xs arbitrary: closest nd)
  case Nil
  then show ?case by simp
next
  case (Cons x xs)
  show ?case
  proof (cases x)
    case None
    from Cons.prems have live: "\<forall>a. Some a \<in> set xs \<longrightarrow> deref h a \<noteq> None" by simp
    from Cons.IH [OF live, of closest nd] show ?thesis
    proof (elim disjE exE conjE)
      fix pre c post
      assume "xs = pre @ Some c # post"
        and "nearest_scan h p xs closest nd = Inr (c, node_distance h p c)"
        and "node_distance h p c < nd"
        and "\<forall>b. Some b \<in> set pre \<longrightarrow> node_distance h p c < node_distance h p b"
        and "\<forall>b. Some b \<in> set post \<longrightarrow> node_distance h p c \<le> node_distance h p b"
      then have "x # xs = (None # pre) @ Some c # post \<and>
            nearest_scan h p (x # xs) closest nd = Inr (c, node_distance h p c) \<and>
            node_distance h p c < nd \<and>
            (\<forall>b. Some b \<in> set (None # pre) \<longrightarrow> node_distance h p c < node_distance h p b) \<and>
            (\<forall>b. Some b \<in> set post \<longrightarrow> node_distance h p c \<le> node_distance h p b)"
        using None by simp
      then show ?thesis by blast
    next
      assume "nearest_scan h p xs closest nd = Inr (closest, nd)"
        and "\<forall>b. Some b \<in> set xs \<longrightarrow> nd \<le> node_distance h p b"
      then show ?thesis using None by simp
    qed
  next
    case (Some a)
    from Cons.prems have live: "\<forall>a. Some a \<in> set xs \<longrightarrow> deref h a \<noteq> None" by simp
    from Cons.prems Some obtain n where n: "deref h a = Some n" by auto
    let ?d = "node_distance h p a"
    have d: "?d = \<bar>fst (m_data n) - fst p\<bar> + \<bar>snd (m_data n) - snd p\<bar>"
      by (simp add: node_distance_def n manhattan_def)
    show ?thesis
    proof (cases "?d < nd")
      case True
      then have step: "nearest_scan h p (x # xs) closest nd = nearest_scan h p xs a ?d"
        using Some n d by (simp add: Let_def)
      from Cons.IH [OF live, of a ?d] show ?thesis
      proof (elim disjE exE conjE)
        fix pre c post
        assume "xs = pre @ Some c # post"
          and "nearest_scan h p xs a ?d = Inr (c, node_distance h p c)"
          and "node_distance h p c < ?d"
          and "\<forall>b. Some b \<in> set pre \<longrightarrow> node_distance h p c < node_distance h p b"
          and "\<forall>b. Some b \<in> set post \<longrightarrow> node_distance h p c \<le> node_distance h p b"
        then have "x # xs = (Some a # pre) @ Some c # post \<and>
            nearest_scan h p (x # xs) closest nd = Inr (c, node_distance h p c) \<and>
            node_distance h p c < nd \<and>
            (\<forall>b. Some b \<in> set (Some a # pre) \<longrightarrow> node_distance h p c < node_distance h p b) \<and>
            (\<forall>b. Some b \<in> set post \<longrightarrow> node_distance h p c \<le> node_distance h p b)"
          using Some step True by auto
        then show ?thesis by blast
      next
        assume "nearest_scan h p xs a ?d = Inr (a, ?d)"
          and "\<forall>b. Some b \<in> set xs \<longrightarrow> ?d \<le> node_distance h p b"
        then have "x # xs = [] @ Some a # xs \<and>
            nearest_scan h p (x # xs) closest nd = Inr (a, ?d) \<and> ?d < nd \<and>
            (\<forall>b. Some b \<in> set [] \<longrightarrow> ?d < node_distance h p b) \<and>
            (\<forall>b. Some b \<in> set xs \<longrightarrow> ?d \<le> node_distance h p b)"
          using Some step True by simp
        then show ?thesis by blast
      qed
    next
      case False
      then have step: "nearest_scan h p (x # xs) closest nd = nearest_scan h p xs closest nd"
        using Some n d by (simp add: Let_def)
      from Cons.IH [OF live, of closest nd] show ?thesis
      proof (elim disjE exE conjE)
        fix pre c post
        assume "xs = pre @ Some c # post"
          and "nearest_scan h p xs closest nd = Inr (c, node_distance h p c)"
          and "node_distance h p c < nd"
          and "\<forall>b. Some b \<in> set pre \<longrightarrow> node_distance h p c < node_distance h p b"
          and "\<forall>b. Some b \<in> set post \<longrightarrow> node_distance h p c \<le> node_distance h p b"
        then have "x # xs = (Some a # pre) @ Some c # post \<and>
            nearest_scan h p (x # xs) closest nd = Inr (c, node_distance h p c) \<and>
            node_distance h p c < nd \<and>
            (\<forall>b. Some b \<in> set (Some a # pre) \<longrightarrow> node_distance h p c < node_distance h p b) \<and>
            (\<forall>b. Some b \<in> set post \<longrightarrow> node_distance h p c \<le> node_distance h p b)"
          using Some step False by auto
        then show ?thesis by blast
      next
        assume "nearest_scan h p xs closest nd = Inr (closest, nd)"
          and "\<forall>b. Some b \<in> set xs \<longrightarrow> nd \<le> node_distance h p b"
        then show ?thesis using Some step False by auto
      qed
    qed
  qed
qed

lemma nearest_scan_origin:
  "nearest_scan h p xs closest nd = Inr (c, d) \<Longrightarrow> c = closest \<or> Some c \<in> set xs"
proof (induction xs arbitrary: closest nd)
  case Nil
  then show ?case by simp
next
  case (Cons x xs)
  then show ?case
    by (cases x) (auto simp: Let_def split: option.splits if_splits dest: Cons.IH)
qed

lemma walk_takeWhile:
  "walk L base start cs v =
     (let vs = takeWhile (\<lambda>c. isValidTile L c base = Inr True) (filter (\<lambda>c. c \<noteq> start) cs)
      in if vs = [] then v else Some (last vs))"
  by (induction cs arbitrary: v) (auto simp: Let_def)

lemma walk_None: "walk L base start cs None = branch_end L base start cs"
  by (simp add: walk_takeWhile branch_end_def)

lemma holds_store:
  assumes "holds h0 v branch h"
  shows "(case (case branch of None \<Rightarrow> Tree_new h | Some b \<Rightarrow> (b, h)) of
            (b, h1) \<Rightarrow> b = length h0 \<and> setData h1 b c
               = Inr (h0 @ [Some \<lparr>m_data = c, m_parent = None, m_branches = []\<rparr>]))"
  using assms
  by (cases v) (simp_all add: holds_def Tree_new_def setData_def deref_def)

lemma cursor_running:
  assumes "0 < sd" and "0 < mag" and "0 < bd"
  shows "(cursor_at sd bd mag k < mag \<and> cursor_at sd bd mag k < bd) = (k < sample_count sd bd mag)"
proof -
  have "(k < sample_count sd bd mag) = (real k < min mag bd / sd)"
    unfolding sample_count_def by (simp add: zless_nat_eq_int_zless less_ceiling_iff)
  also have "\<dots> = (real k * sd < min mag bd)"
    using assms(1) by (simp add: pos_less_divide_eq)
  also have "\<dots> = (cursor_at sd bd mag k < mag \<and> cursor_at sd bd mag k < bd)"
    unfolding cursor_at_def by (auto simp: min_def)
  finally show ?thesis by simp
qed

lemma cursor_at_running:
  assumes "0 < sd" and "0 < mag" and "0 < bd" and "k < sample_count sd bd mag"
  shows "cursor_at sd bd mag k = real k * sd" and "real k * sd < min mag bd"
proof -
  from cursor_running [OF assms(1-3), of k] assms(4)
  have "cursor_at sd bd mag k < mag" "cursor_at sd bd mag k < bd" by simp_all
  then show "cursor_at sd bd mag k = real k * sd" and "real k * sd < min mag bd"
    unfolding cursor_at_def by (auto simp: min_def split: if_splits)
qed

lemma sample_count_zero:
  assumes "0 < sd" and "\<not> (0 < mag \<and> 0 < bd)"
  shows "sample_count sd bd mag = 0"
proof -
  from assms(2) have "min mag bd \<le> 0" by (auto simp: min_def)
  with assms(1) have "min mag bd / sd \<le> 0" by (simp add: divide_le_0_iff)
  then have "\<lceil>min mag bd / sd\<rceil> \<le> 0" by (simp add: ceiling_le_iff)
  then show ?thesis by (simp add: sample_count_def)
qed

lemma exact_steps_mono:
  assumes "exact_steps sd limit" and "limit' \<le> limit"
  shows "exact_steps sd limit'"
proof -
  from assms(1) obtain m j where mj: "0 < m" "j \<le> 149" "sd = real m / 2 ^ j"
    and bound: "limit * 2 ^ j + real m \<le> 16777216"
    unfolding exact_steps_def by blast
  from assms(2) have "limit' * 2 ^ j \<le> limit * 2 ^ j" by simp
  with bound have "limit' * 2 ^ j + real m \<le> 16777216" by linarith
  with mj show ?thesis unfolding exact_steps_def by blast
qed

lemma exact_steps_pos: "exact_steps sd limit \<Longrightarrow> 0 < sd"
  by (auto simp: exact_steps_def)

lemma cursor_exact:
  assumes exact: "exact_steps sd (min mag bd)" and pos: "0 < mag" "0 < bd"
    and k: "k \<le> sample_count sd bd mag"
  shows "cursor sd bd mag k = cursor_at sd bd mag k"
  using k
proof (induction k)
  case 0
  show ?case using pos by (simp add: cursor_at_def)
next
  case (Suc k)
  from exact obtain m j where mj: "0 < m" "j \<le> 149" "sd = real m / 2 ^ j"
    and bound: "min mag bd * 2 ^ j + real m \<le> 16777216"
    unfolding exact_steps_def by blast
  have sd: "0 < sd" using exact by (rule exact_steps_pos)
  from Suc.prems have lt: "k < sample_count sd bd mag" by simp
  note at = cursor_at_running [OF sd pos lt]
  from Suc.IH lt have c: "cursor sd bd mag k = real k * sd" by (simp add: at(1))
  define lim where "lim = min mag bd"
  have "real k * real m / 2 ^ j < lim" using at(2) by (simp add: mj(3) lim_def)
  then have "real k * real m < lim * 2 ^ j" by (simp add: pos_divide_less_eq)
  moreover have "lim * 2 ^ j + real m \<le> 16777216" using bound by (simp add: lim_def)
  ultimately have small: "real (Suc k) * real m \<le> 16777216" by (simp add: algebra_simps)
  have "real (Suc k) * sd = real_of_int (int (Suc k * m)) / 2 ^ j" by (simp add: mj(3) algebra_simps)
  moreover have "\<bar>int (Suc k * m)\<bar> \<le> 16777216"
  proof -
    from small have "real (Suc k * m) \<le> 16777216" by (simp add: algebra_simps)
    then show ?thesis by linarith
  qed
  ultimately have "fl (real (Suc k) * sd) = real (Suc k) * sd"
    using fl_exact [of "int (Suc k * m)" j] mj(2) by simp
  moreover have "cursor sd bd mag k + sd = real (Suc k) * sd" by (simp add: c algebra_simps)
  ultimately have "fl (cursor sd bd mag k + sd) = real (Suc k) * sd" by simp
  then show ?case by (simp add: cursor_at_def)
qed

lemma exact_stops:
  assumes exact: "exact_steps sd (min mag bd)"
  shows "stops_at sd bd mag (sample_count sd bd mag)"
proof (cases "0 < mag \<and> 0 < bd")
  case False
  have sd: "0 < sd" using exact by (rule exact_steps_pos)
  from sample_count_zero [OF sd False] False show ?thesis
    by (auto simp: stops_at_def running_def)
next
  case True
  then have pos: "0 < mag" "0 < bd" by simp_all
  have sd: "0 < sd" using exact by (rule exact_steps_pos)
  have "running sd bd mag k = (k < sample_count sd bd mag)" if "k \<le> sample_count sd bd mag" for k
    unfolding running_def cursor_exact [OF exact pos that] by (rule cursor_running [OF sd pos])
  then show ?thesis by (simp add: stops_at_def)
qed

lemma trunc_between:
  assumes "real_of_int a \<le> r" and "r \<le> real_of_int b"
  shows "a \<le> trunc r" and "trunc r \<le> b"
proof -
  show "a \<le> trunc r"
    using assms by (auto simp: trunc_def le_floor_iff intro: order_trans [OF _ le_of_int_ceiling] ) linarith?
  show "trunc r \<le> b"
    using assms by (auto simp: trunc_def ceiling_le_iff) linarith?
qed

lemma fl_between:
  assumes "a \<le> x" and "x \<le> b" and "fl a = a" and "fl b = b"
  shows "a \<le> fl x" and "fl x \<le> b"
  using fl_mono [OF assms(1)] fl_mono [OF assms(2)] assms(3,4) by simp_all

lemma fl_unit:
  assumes "0 \<le> t" and "t \<le> 1"
  shows "0 \<le> fl t" and "fl t \<le> 1"
  using fl_between [OF assms fl_zero fl_one] .

lemma interp_between:
  assumes a: "\<bar>a\<bar> \<le> 16777216" and b: "\<bar>b\<bar> \<le> 16777216" and d: "\<bar>b - a\<bar> \<le> 16777216"
    and t: "0 \<le> t" "t \<le> 1"
  shows "real_of_int (min a b)
           \<le> fl (fl (real_of_int a) + fl (fl (real_of_int (b - a)) * t))"
    and "fl (fl (real_of_int a) + fl (fl (real_of_int (b - a)) * t)) \<le> real_of_int (max a b)"
proof -
  let ?d = "real_of_int (b - a)"
  note fa = fl_of_int [OF a] and fb = fl_of_int [OF b] and fd = fl_of_int [OF d]
  have fmin: "fl (real_of_int (min a b)) = real_of_int (min a b)"
    and fmax: "fl (real_of_int (max a b)) = real_of_int (max a b)"
    using fa fb by (simp_all add: min_def max_def)
  have lo: "min 0 ?d \<le> ?d * t" and hi: "?d * t \<le> max 0 ?d"
    using t by (auto simp: min_def max_def mult_le_0_iff zero_le_mult_iff
        intro: mult_left_le mult_left_le_one_le)
  have fl0: "fl (min 0 ?d) = min 0 ?d" and fl1: "fl (max 0 ?d) = max 0 ?d"
    using fd by (simp_all add: min_def max_def fl_zero)
  note p = fl_between [OF lo hi fl0 fl1]
  have "real_of_int (min a b) \<le> real_of_int a + fl (?d * t)"
    using p(1) by (auto simp: min_def split: if_splits)
  moreover have "real_of_int a + fl (?d * t) \<le> real_of_int (max a b)"
    using p(2) by (auto simp: max_def split: if_splits)
  ultimately show "real_of_int (min a b)
           \<le> fl (fl (real_of_int a) + fl (fl (real_of_int (b - a)) * t))"
    and "fl (fl (real_of_int a) + fl (fl (real_of_int (b - a)) * t)) \<le> real_of_int (max a b)"
    unfolding fa fd using fl_between [OF _ _ fmin fmax] by blast+
qed

lemma int32_in_bounds:
  assumes "valid_level L" and "in_bounds L p"
  shows "int32 (fst p)" and "int32 (snd p)"
  using assms by (auto simp: valid_level_def in_bounds_def int32_def)

lemma lerp_in_bounds:
  assumes level: "valid_level L" "m_width L \<le> 16777216" "m_height L \<le> 16777216"
    and inb: "in_bounds L start" "in_bounds L endp"
    and t: "0 \<le> t" "t \<le> 1"
  shows "\<exists>p. lerp start endp t = Inr p \<and> in_bounds L p \<and>
           p = (trunc (fst (lerp_float start endp t)), trunc (snd (lerp_float start endp t))) \<and>
           min (fst start) (fst endp) \<le> fst p \<and> fst p \<le> max (fst start) (fst endp) \<and>
           min (snd start) (snd endp) \<le> snd p \<and> snd p \<le> max (snd start) (snd endp)"
proof -
  let ?p = "lerp_float start endp t"
  have small: "\<bar>fst start\<bar> \<le> 16777216" "\<bar>fst endp\<bar> \<le> 16777216"
    "\<bar>fst endp - fst start\<bar> \<le> 16777216"
    "\<bar>snd start\<bar> \<le> 16777216" "\<bar>snd endp\<bar> \<le> 16777216"
    "\<bar>snd endp - snd start\<bar> \<le> 16777216"
    using level(2,3) inb by (auto simp: in_bounds_def)
  note x = interp_between [OF small(1,2,3) t] and y = interp_between [OF small(4,5,6) t]
  have px: "min (fst start) (fst endp) \<le> trunc (fst ?p)"
    "trunc (fst ?p) \<le> max (fst start) (fst endp)"
    using trunc_between [OF x] by (simp_all add: lerp_float_def)
  have py: "min (snd start) (snd endp) \<le> trunc (snd ?p)"
    "trunc (snd ?p) \<le> max (snd start) (snd endp)"
    using trunc_between [OF y] by (simp_all add: lerp_float_def)
  have inside: "in_bounds L (trunc (fst ?p), trunc (snd ?p))"
    using px py inb by (auto simp: in_bounds_def min_def max_def split: if_splits)
  have diff: "int32 (fst endp - fst start)" "int32 (snd endp - snd start)"
    using small(3,6) by (auto simp: int32_def)
  from int32_in_bounds [OF level(1) inside] diff
  have "lerp start endp t = Inr (trunc (fst ?p), trunc (snd ?p))"
    by (simp add: lerp_def Let_def)
  with inside px py show ?thesis by simp
qed

lemma squared_length_nonneg: "0 \<le> squared_length start endp"
  by (simp add: squared_length_def)

lemma magnitude_nonneg: "0 \<le> magnitude start endp"
  unfolding magnitude_def
  by (intro fl_nonneg real_sqrt_ge_zero) (simp add: squared_length_nonneg)

lemma cursor_upper: "0 \<le> mag \<Longrightarrow> cursor sd bd mag k \<le> mag"
  by (cases k) simp_all

lemma cursor_nonneg:
  assumes "0 \<le> sd" and "0 \<le> mag" and "0 \<le> bd"
  shows "0 \<le> cursor sd bd mag k"
proof (induction k)
  case 0
  show ?case by simp
next
  case (Suc k)
  then have "0 \<le> fl (cursor sd bd mag k + sd)" using assms(1) by (intro fl_nonneg) simp
  with assms(2,3) show ?case by simp
qed

lemma cursor_fraction:
  assumes "0 \<le> sd" and "0 < mag" and "0 \<le> bd"
  shows "0 \<le> fl (cursor sd bd mag k / mag)" and "fl (cursor sd bd mag k / mag) \<le> 1"
proof -
  have "0 \<le> cursor sd bd mag k / mag"
    using cursor_nonneg [OF assms(1) _ assms(3), of mag k] assms(2) by simp
  moreover have "cursor sd bd mag k / mag \<le> 1"
    using cursor_upper [of mag sd bd k] assms(2) by simp
  ultimately show "0 \<le> fl (cursor sd bd mag k / mag)" and "fl (cursor sd bd mag k / mag) \<le> 1"
    by (rule fl_unit)+
qed

lemma candidate_in_bounds:
  assumes level: "valid_level L" "m_width L \<le> 16777216" "m_height L \<le> 16777216"
    and inb: "in_bounds L start" "in_bounds L endp"
    and pos: "0 \<le> sd" "0 < magnitude start endp" "0 \<le> bd"
  shows "lerp start endp (fl (cursor sd bd (magnitude start endp) k / magnitude start endp))
           = Inr (candidate sd bd start endp k)"
    and "in_bounds L (candidate sd bd start endp k)"
    and "min (fst start) (fst endp) \<le> fst (candidate sd bd start endp k)"
    and "fst (candidate sd bd start endp k) \<le> max (fst start) (fst endp)"
    and "min (snd start) (snd endp) \<le> snd (candidate sd bd start endp k)"
    and "snd (candidate sd bd start endp k) \<le> max (snd start) (snd endp)"
proof -
  from lerp_in_bounds [OF level inb cursor_fraction [OF pos, of k]]
  obtain p where
    "lerp start endp (fl (cursor sd bd (magnitude start endp) k / magnitude start endp)) = Inr p"
    "in_bounds L p" "p = candidate sd bd start endp k"
    "min (fst start) (fst endp) \<le> fst p" "fst p \<le> max (fst start) (fst endp)"
    "min (snd start) (snd endp) \<le> snd p" "snd p \<le> max (snd start) (snd endp)"
    unfolding candidate_def Let_def by blast
  then show "lerp start endp (fl (cursor sd bd (magnitude start endp) k / magnitude start endp))
           = Inr (candidate sd bd start endp k)"
    and "in_bounds L (candidate sd bd start endp k)"
    and "min (fst start) (fst endp) \<le> fst (candidate sd bd start endp k)"
    and "fst (candidate sd bd start endp k) \<le> max (fst start) (fst endp)"
    and "min (snd start) (snd endp) \<le> snd (candidate sd bd start endp k)"
    and "snd (candidate sd bd start endp k) \<le> max (snd start) (snd endp)"
    by simp_all
qed

lemma isValidTile_in_bounds:
  assumes "valid_level L" and "in_bounds L p"
  shows "isValidTile L p base =
           Inr (passable base (m_tileData L ! (nat (fst p) + nat (snd p) * m_width L)))"
  by (simp add: isValidTile_def getTile_in_bounds [OF assms])

lemma samples_after_zero: "samples_after sd bd start endp N 0 = candidates sd bd start endp N"
  by (simp add: samples_after_def candidates_def)

lemma samples_after_last: "N \<le> k \<Longrightarrow> samples_after sd bd start endp N k = []"
  by (simp add: samples_after_def)

lemma samples_after_step:
  "k < N \<Longrightarrow>
   samples_after sd bd start endp N k
     = candidate sd bd start endp (Suc k) # samples_after sd bd start endp N (Suc k)"
  unfolding samples_after_def by (simp add: upt_conv_Cons del: upt_Suc)

lemma loop_run:
  assumes mag: "mag = magnitude start endp"
    and stops: "stops_at sd bd mag N"
    and ok: "\<And>j. 0 < j \<Longrightarrow> j \<le> N \<Longrightarrow>
               lerp start endp (fl (cursor sd bd mag j / mag)) = Inr (candidate sd bd start endp j) \<and>
               (\<exists>v. isValidTile L (candidate sd bd start endp j) base = Inr v)"
    and k: "k \<le> N"
    and holds: "holds h0 v branch h"
  shows "\<exists>branch' h'.
           calculateBranch_loop L sd bd start endp base mag (cursor sd bd mag k) branch h
             = Some (Inr (branch', h')) \<and>
           holds h0 (walk L base start (samples_after sd bd start endp N k) v) branch' h'"
  using k holds
proof (induction "N - k" arbitrary: k v branch h)
  case 0
  then have "k = N" by simp
  then have stop: "\<not> (cursor sd bd mag k < mag \<and> cursor sd bd mag k < bd)"
    using stops by (simp add: stops_at_def running_def)
  have "calculateBranch_loop L sd bd start endp base mag (cursor sd bd mag k) branch h
          = Some (Inr (branch, h))"
    by (subst calculateBranch_loop.simps) (rule if_not_P [OF stop])
  with \<open>k = N\<close> "0.prems"(2) show ?case
    by (simp add: samples_after_last)
next
  case (Suc d)
  then have lt: "k < N" by simp
  then have run: "cursor sd bd mag k < mag \<and> cursor sd bd mag k < bd"
    using stops by (simp add: stops_at_def running_def)
  let ?inc = "candidate sd bd start endp (Suc k)"
  have next_cursor: "min (min (fl (cursor sd bd mag k + sd)) mag) bd = cursor sd bd mag (Suc k)"
    by simp
  from ok [of "Suc k"] lt
  have inc: "lerp start endp (fl (cursor sd bd mag (Suc k) / mag)) = Inr ?inc"
    and "\<exists>v. isValidTile L ?inc base = Inr v" by simp_all
  then obtain valid where valid: "isValidTile L ?inc base = Inr valid" by blast
  have upt: "samples_after sd bd start endp N k = ?inc # samples_after sd bd start endp N (Suc k)"
    using lt by (rule samples_after_step)
  have d: "d = N - Suc k" and le: "Suc k \<le> N" using Suc.hyps(2) lt by simp_all
  note unfold = run next_cursor inc Let_def
  show ?case
  proof (cases "?inc = start")
    case True
    have "calculateBranch_loop L sd bd start endp base mag (cursor sd bd mag k) branch h
            = calculateBranch_loop L sd bd start endp base mag (cursor sd bd mag (Suc k)) branch h"
      by (subst calculateBranch_loop.simps) (simp only: unfold, simp add: True)
    with Suc.hyps(1) [OF d le Suc.prems(2)] show ?thesis
      by (simp add: upt True)
  next
    case False
    show ?thesis
    proof (cases valid)
      case True
      let ?h2 = "h0 @ [Some \<lparr>m_data = ?inc, m_parent = None, m_branches = []\<rparr>]"
      from holds_store [OF Suc.prems(2), of ?inc]
      have "calculateBranch_loop L sd bd start endp base mag (cursor sd bd mag k) branch h
              = calculateBranch_loop L sd bd start endp base mag (cursor sd bd mag (Suc k))
                  (Some (length h0)) ?h2"
        by (subst calculateBranch_loop.simps)
           (simp only: unfold, auto simp: False valid True split: prod.splits)
      moreover have "holds h0 (Some ?inc) (Some (length h0)) ?h2" by (simp add: holds_def)
      ultimately show ?thesis
        using Suc.hyps(1) [OF d le, of "Some ?inc" "Some (length h0)" ?h2]
        by (simp add: upt False valid True)
    next
      case no: False
      have "calculateBranch_loop L sd bd start endp base mag (cursor sd bd mag k) branch h
              = Some (Inr (branch, h))"
        by (subst calculateBranch_loop.simps)
           (simp only: unfold, simp add: False valid no)
      with Suc.prems(2) show ?thesis
        by (simp add: upt False valid no)
    qed
  qed
qed

lemma squares_fit:
  assumes "valid_level L" and "in_bounds L start" and "in_bounds L endp"
    and "squared_length start endp \<le> 2147483647"
  shows "int32 (fst endp - fst start)" and "int32 (snd endp - snd start)"
    and "int32 ((fst endp - fst start) * (fst endp - fst start))"
    and "int32 ((snd endp - snd start) * (snd endp - snd start))"
    and "int32 ((fst endp - fst start) * (fst endp - fst start)
                + (snd endp - snd start) * (snd endp - snd start))"
proof -
  show "int32 (fst endp - fst start)" and "int32 (snd endp - snd start)"
    using assms(1-3) by (auto simp: valid_level_def in_bounds_def int32_def)
  have "0 \<le> (fst endp - fst start) * (fst endp - fst start)"
    and "0 \<le> (snd endp - snd start) * (snd endp - snd start)" by simp_all
  with assms(4)
  show "int32 ((fst endp - fst start) * (fst endp - fst start))"
    and "int32 ((snd endp - snd start) * (snd endp - snd start))"
    and "int32 ((fst endp - fst start) * (fst endp - fst start)
                + (snd endp - snd start) * (snd endp - snd start))"
    unfolding squared_length_def int32_def by linarith+
qed

lemma calculateBranch_unfold:
  assumes "m_level s = Some L" and "valid_level L"
    and "in_bounds L start" and "in_bounds L endp"
    and "squared_length start endp \<le> 2147483647"
  shows "calculateBranch s start endp
           = calculateBranch_loop L (m_sampleDistance s) (m_branchDistance s) start endp
               (m_tileData L ! (nat (fst start) + nat (snd start) * m_width L))
               (magnitude start endp) 0 None (heap s)"
  using squares_fit [OF assms(2-5)]
  by (simp add: calculateBranch_def assms(1) getTile_in_bounds [OF assms(2,3)] Let_def
      magnitude_def squared_length_def)

lemma calculateBranch_run:
  assumes level: "m_level s = Some L" "valid_level L"
    and dims: "m_width L \<le> 16777216" "m_height L \<le> 16777216"
    and inb: "in_bounds L start" "in_bounds L endp"
    and fits: "squared_length start endp \<le> 2147483647"
    and sd: "0 \<le> m_sampleDistance s"
    and stops: "stops_at (m_sampleDistance s) (m_branchDistance s) (magnitude start endp) N"
  shows "\<exists>base branch h'.
           getTile L (to_unsigned (fst start)) (to_unsigned (snd start)) = Inr base \<and>
           calculateBranch s start endp = Some (Inr (branch, h')) \<and>
           holds (heap s)
             (branch_end L base start
                (candidates (m_sampleDistance s) (m_branchDistance s) start endp N))
             branch h'"
proof -
  let ?sd = "m_sampleDistance s" and ?bd = "m_branchDistance s"
  let ?mag = "magnitude start endp"
  let ?base = "m_tileData L ! (nat (fst start) + nat (snd start) * m_width L)"
  have base: "getTile L (to_unsigned (fst start)) (to_unsigned (snd start)) = Inr ?base"
    by (rule getTile_in_bounds [OF level(2) inb(1)])
  note unfold = calculateBranch_unfold [OF level inb fits]
  have ok: "lerp start endp (fl (cursor ?sd ?bd ?mag j / ?mag)) = Inr (candidate ?sd ?bd start endp j) \<and>
            (\<exists>v. isValidTile L (candidate ?sd ?bd start endp j) ?base = Inr v)"
    if "0 < j" "j \<le> N" for j
  proof -
    from that stops have "running ?sd ?bd ?mag 0" by (simp add: stops_at_def)
    then have pos: "0 < ?mag" "0 \<le> ?bd" by (simp_all add: running_def)
    note c = candidate_in_bounds [OF level(2) dims inb sd pos, of j]
    from c(1) isValidTile_in_bounds [OF level(2) c(2)] show ?thesis by blast
  qed
  have "cursor ?sd ?bd ?mag 0 = 0" by simp
  with loop_run [OF refl stops ok, of 0 "heap s" None None "heap s"]
  show ?thesis
    using base unfold by (simp add: holds_def [of _ None] walk_None samples_after_zero)
qed

lemma square_bound:
  fixes d b :: int
  assumes "\<bar>d\<bar> \<le> b"
  shows "d * d \<le> b * b"
proof -
  have "\<bar>d\<bar> * \<bar>d\<bar> \<le> b * b" using assms by (intro mult_mono) simp_all
  then show ?thesis by simp
qed

lemma calculateBranch_exact:
  assumes level: "m_level s = Some L" "valid_level L"
    and dims: "m_width L \<le> 32768" "m_height L \<le> 32768"
    and inb: "in_bounds L start" "in_bounds L endp"
    and exact: "exact_steps (m_sampleDistance s) (m_branchDistance s)"
  shows "\<exists>base branch h' N.
           stops_at (m_sampleDistance s) (m_branchDistance s) (magnitude start endp) N \<and>
           getTile L (to_unsigned (fst start)) (to_unsigned (snd start)) = Inr base \<and>
           calculateBranch s start endp = Some (Inr (branch, h')) \<and>
           holds (heap s)
             (branch_end L base start
                (candidates (m_sampleDistance s) (m_branchDistance s) start endp N))
             branch h'"
proof -
  have d: "\<bar>fst endp - fst start\<bar> \<le> 32767" "\<bar>snd endp - snd start\<bar> \<le> 32767"
    using dims inb by (auto simp: in_bounds_def)
  have "(fst endp - fst start) * (fst endp - fst start) \<le> 32767 * 32767"
    and "(snd endp - snd start) * (snd endp - snd start) \<le> 32767 * 32767"
    by (rule square_bound [OF d(1)], rule square_bound [OF d(2)])
  then have fits: "squared_length start endp \<le> 2147483647"
    by (simp add: squared_length_def)
  have sd: "0 \<le> m_sampleDistance s" using exact_steps_pos [OF exact] by simp
  have "exact_steps (m_sampleDistance s) (min (magnitude start endp) (m_branchDistance s))"
    using exact by (rule exact_steps_mono) simp
  then have stops: "stops_at (m_sampleDistance s) (m_branchDistance s) (magnitude start endp)
               (sample_count (m_sampleDistance s) (m_branchDistance s) (magnitude start endp))"
    by (rule exact_stops)
  have "m_width L \<le> 16777216" "m_height L \<le> 16777216" using dims by simp_all
  from calculateBranch_run [OF level this inb fits sd stops] stops show ?thesis by blast
qed

lemma deref_Some_less: "deref h a = Some n \<Longrightarrow> a < length h"
  by (simp add: deref_def split: if_splits)

lemma Tree_delete_leaf:
  assumes "deref h a = Some n" and "m_branches n = []"
  shows "Tree_delete h a = h[a := None]"
proof -
  from assms(1) have "a < length h" by (rule deref_Some_less)
  then obtain k where "length h = Suc k" by (cases "length h") simp_all
  then show ?thesis using assms by (simp add: Tree_delete_def)
qed

lemma tree_nodes_cong:
  assumes "\<And>a. deref h' a = deref h a"
  shows "tree_nodes h' r = tree_nodes h r"
proof (intro set_eqI iffI)
  fix a assume "a \<in> tree_nodes h' r"
  then show "a \<in> tree_nodes h r"
    by induction (auto simp: assms intro: tree_nodes.intros)
next
  fix a assume "a \<in> tree_nodes h r"
  then show "a \<in> tree_nodes h' r"
    by induction (auto simp: assms [symmetric] intro: tree_nodes.intros)
qed

lemma tree_nodes_leaf:
  assumes "deref h r = Some n" and "m_branches n = []"
  shows "tree_nodes h r = {r}"
proof (intro set_eqI iffI)
  fix a assume "a \<in> tree_nodes h r"
  then show "a \<in> {r}" by induction (use assms in auto)
next
  fix a assume "a \<in> {r}"
  then show "a \<in> tree_nodes h r" using assms by (auto intro: tree_nodes.root)
qed

lemma tree_nodes_graft:
  assumes p: "p \<in> tree_nodes h r" "deref h p = Some pn"
    and live: "\<And>a. a \<in> tree_nodes h r \<Longrightarrow> deref h a \<noteq> None"
    and new: "m_branches new = []"
    and h': "h' = (h @ [Some new])[p := Some (pn\<lparr>m_branches := m_branches pn @ [length h]\<rparr>)]"
  shows "tree_nodes h' r = insert (length h) (tree_nodes h r)"
proof -
  have plt: "p < length h" using p(2) by (rule deref_Some_less)
  have dp: "deref h' p = Some (pn\<lparr>m_branches := m_branches pn @ [length h]\<rparr>)"
    using plt by (simp add: h' deref_def)
  have db: "deref h' (length h) = Some new"
    using plt by (simp add: h' deref_def)
  have other: "deref h' a = deref h a" if "a \<noteq> p" "a \<noteq> length h" for a
    using that by (auto simp: h' deref_def nth_append)
  have rin: "r \<in> tree_nodes h r"
    using p(1) by induction (auto intro: tree_nodes.root)
  have sub: "a \<in> insert (length h) (tree_nodes h r)" if "a \<in> tree_nodes h' r" for a
    using that
  proof induction
    case root
    then show ?case using rin by simp
  next
    case (child a n c)
    show ?case
    proof (cases "a = length h")
      case True
      with child.hyps(2) db new child.hyps(3) show ?thesis by simp
    next
      case False
      with child.IH have a: "a \<in> tree_nodes h r" by simp
      show ?thesis
      proof (cases "a = p")
        case True
        with child.hyps(2,3) dp have "c \<in> set (m_branches pn) \<or> c = length h" by auto
        then show ?thesis using p True a by (auto intro: tree_nodes.child)
      next
        case False
        with child.hyps(2) other \<open>a \<noteq> length h\<close> have "deref h a = Some n" by simp
        with a child.hyps(3) show ?thesis by (auto intro: tree_nodes.child)
      qed
    qed
  qed
  have sup: "a \<in> tree_nodes h' r" if "a \<in> tree_nodes h r" for a
    using that
  proof induction
    case root
    then obtain n where n: "deref h r = Some n" by auto
    then have "r \<noteq> length h" by (auto dest: deref_Some_less)
    then have "deref h' r \<noteq> None"
      using dp other [of r] n by (cases "r = p") simp_all
    then show ?case by (rule tree_nodes.root)
  next
    case (child a n c)
    show ?case
    proof (cases "a = p")
      case True
      with child.hyps(2) p(2) have "n = pn" by simp
      with child.hyps(3) have "c \<in> set (m_branches (pn\<lparr>m_branches := m_branches pn @ [length h]\<rparr>))"
        by simp
      with child.IH True dp show ?thesis by (blast intro: tree_nodes.child)
    next
      case False
      moreover from child.hyps(2) have "a \<noteq> length h" by (auto dest: deref_Some_less)
      ultimately have "deref h' a = Some n" using other child.hyps(2) by simp
      with child.IH child.hyps(3) show ?thesis by (blast intro: tree_nodes.child)
    qed
  qed
  have "length h \<in> tree_nodes h' r"
    using sup [OF p(1)] dp by (rule tree_nodes.child) simp
  with sub sup show ?thesis by blast
qed

lemma loop_shape:
  assumes "calculateBranch_loop L sd bd start endp base mag current branch h = Some y"
  shows "(\<exists>v. holds h0 v branch h) \<longrightarrow>
         (\<forall>branch' h'. y = Inr (branch', h') \<longrightarrow> (\<exists>v'. holds h0 v' branch' h'))"
proof (rule calculateBranch_loop.raw_induct
    [where P = "\<lambda>L sd bd start endp base mag current branch h y.
       (\<exists>v. holds h0 v branch h) \<longrightarrow>
       (\<forall>branch' h'. y = Inr (branch', h') \<longrightarrow> (\<exists>v'. holds h0 v' branch' h'))", OF _ assms])
  fix loop :: "LevelData \<Rightarrow> real \<Rightarrow> real \<Rightarrow> Vector2i \<Rightarrow> Vector2i \<Rightarrow> TileType \<Rightarrow> real \<Rightarrow>
      real \<Rightarrow> nat option \<Rightarrow> store \<Rightarrow> (error + nat option \<times> store) option"
    and L :: LevelData and sd bd mag current :: real and start endp :: Vector2i
    and base :: TileType and branch :: "nat option" and h :: store
    and y :: "error + nat option \<times> store"
  assume IH: "\<And>L sd bd start endp base mag current branch h y.
           loop L sd bd start endp base mag current branch h = Some y \<Longrightarrow>
           (\<exists>v. holds h0 v branch h) \<longrightarrow>
           (\<forall>branch' h'. y = Inr (branch', h') \<longrightarrow> (\<exists>v'. holds h0 v' branch' h'))"
  let ?current = "min (min (fl (current + sd)) mag) bd"
  let ?h2 = "\<lambda>inc. h0 @ [Some \<lparr>m_data = inc, m_parent = None, m_branches = []\<rparr>]"
  assume body: "(if current < mag \<and> current < bd then
        (let current' = min (min (fl (current + sd)) mag) bd
         in case lerp start endp (fl (current' / mag)) of
              Inl e \<Rightarrow> Some (Inl e)
            | Inr inc \<Rightarrow>
                if inc \<noteq> start then
                  (case isValidTile L inc base of
                     Inl e \<Rightarrow> Some (Inl e)
                   | Inr valid \<Rightarrow>
                       if valid then
                         (case (case branch of None \<Rightarrow> Tree_new h | Some b \<Rightarrow> (b, h)) of
                            (b, h1) \<Rightarrow>
                              (case setData h1 b inc of
                                 Inl e \<Rightarrow> Some (Inl e)
                               | Inr h2 \<Rightarrow> loop L sd bd start endp base mag current' (Some b) h2))
                       else Some (Inr (branch, h)))
                else loop L sd bd start endp base mag current' branch h)
      else Some (Inr (branch, h))) = Some y"
  show "(\<exists>v. holds h0 v branch h) \<longrightarrow>
        (\<forall>branch' h'. y = Inr (branch', h') \<longrightarrow> (\<exists>v'. holds h0 v' branch' h'))"
  proof (intro impI allI, elim exE)
    fix v branch' h'
    assume holds: "holds h0 v branch h" and y: "y = Inr (branch', h')"
    show "\<exists>v'. holds h0 v' branch' h'"
    proof (cases "current < mag \<and> current < bd")
      case False
      with body y have "branch' = branch" "h' = h" by simp_all
      with holds show ?thesis by blast
    next
      case run: True
      show ?thesis
      proof (cases "lerp start endp (fl (?current / mag))")
        case (Inl e)
        with body run y show ?thesis by (simp add: Let_def)
      next
        case point: (Inr inc)
        show ?thesis
        proof (cases "inc = start")
          case True
          with body run point have "loop L sd bd start endp base mag ?current branch h = Some y"
            by (simp add: Let_def)
          from IH [OF this] holds y show ?thesis by blast
        next
          case moved: False
          show ?thesis
          proof (cases "isValidTile L inc base")
            case (Inl e)
            with body run point moved y show ?thesis by (simp add: Let_def)
          next
            case (Inr valid)
            show ?thesis
            proof (cases valid)
              case False
              with body run point moved Inr y have "branch' = branch" "h' = h"
                by (simp_all add: Let_def)
              with holds show ?thesis by blast
            next
              case True
              from holds_store [OF holds, of inc]
              have "(case (case branch of None \<Rightarrow> Tree_new h | Some b \<Rightarrow> (b, h)) of
                      (b, h1) \<Rightarrow>
                        (case setData h1 b inc of
                           Inl e \<Rightarrow> Some (Inl e)
                         | Inr h2 \<Rightarrow> loop L sd bd start endp base mag ?current (Some b) h2))
                    = loop L sd bd start endp base mag ?current (Some (length h0)) (?h2 inc)"
                by (auto split: prod.splits)
              with body run point moved Inr True
              have "loop L sd bd start endp base mag ?current (Some (length h0)) (?h2 inc) = Some y"
                by (simp add: Let_def)
              moreover have "holds h0 (Some inc) (Some (length h0)) (?h2 inc)"
                by (simp add: holds_def)
              ultimately show ?thesis using IH y by blast
            qed
          qed
        qed
      qed
    qed
  qed
qed

lemma calculateBranch_shape:
  assumes "calculateBranch s start endp = Some (Inr (branch, h'))"
  shows "(branch = None \<and> h' = heap s) \<or>
         (\<exists>c. branch = Some (length (heap s)) \<and>
              h' = heap s @ [Some \<lparr>m_data = c, m_parent = None, m_branches = []\<rparr>])"
proof -
  from assms obtain L base mag where
    "calculateBranch_loop L (m_sampleDistance s) (m_branchDistance s) start endp base mag 0
       None (heap s) = Some (Inr (branch, h'))"
    by (auto simp: calculateBranch_def Let_def split: option.splits sum.splits if_splits)
  moreover have "holds (heap s) None None (heap s)" by (simp add: holds_def)
  ultimately obtain v where "holds (heap s) v branch h'"
    using loop_shape [of _ _ _ _ _ _ _ _ None "heap s" _ "heap s"] by blast
  then show ?thesis by (cases v) (auto simp: holds_def)
qed

lemma loop_safe:
  assumes "calculateBranch_loop L sd bd start endp base mag current branch h = Some y"
  shows "safe_input L sd start endp \<and> 0 \<le> current \<and>
           (\<exists>v. holds h0 v branch h \<and> (\<forall>c. v = Some c \<longrightarrow> in_bounds L c)) \<longrightarrow>
         (\<exists>branch' h' v'. y = Inr (branch', h') \<and> holds h0 v' branch' h' \<and>
            (\<forall>c. v' = Some c \<longrightarrow> in_bounds L c))"
proof (rule calculateBranch_loop.raw_induct
    [where P = "\<lambda>L sd bd start endp base mag current branch h y.
       safe_input L sd start endp \<and> 0 \<le> current \<and>
         (\<exists>v. holds h0 v branch h \<and> (\<forall>c. v = Some c \<longrightarrow> in_bounds L c)) \<longrightarrow>
       (\<exists>branch' h' v'. y = Inr (branch', h') \<and> holds h0 v' branch' h' \<and>
          (\<forall>c. v' = Some c \<longrightarrow> in_bounds L c))", OF _ assms])
  fix loop :: "LevelData \<Rightarrow> real \<Rightarrow> real \<Rightarrow> Vector2i \<Rightarrow> Vector2i \<Rightarrow> TileType \<Rightarrow> real \<Rightarrow>
      real \<Rightarrow> nat option \<Rightarrow> store \<Rightarrow> (error + nat option \<times> store) option"
    and L :: LevelData and sd bd mag current :: real and start endp :: Vector2i
    and base :: TileType and branch :: "nat option" and h :: store
    and y :: "error + nat option \<times> store"
  assume IH: "\<And>L sd bd start endp base mag current branch h y.
           loop L sd bd start endp base mag current branch h = Some y \<Longrightarrow>
           safe_input L sd start endp \<and> 0 \<le> current \<and>
             (\<exists>v. holds h0 v branch h \<and> (\<forall>c. v = Some c \<longrightarrow> in_bounds L c)) \<longrightarrow>
           (\<exists>branch' h' v'. y = Inr (branch', h') \<and> holds h0 v' branch' h' \<and>
              (\<forall>c. v' = Some c \<longrightarrow> in_bounds L c))"
  let ?current = "min (min (fl (current + sd)) mag) bd"
  let ?h2 = "\<lambda>inc. h0 @ [Some \<lparr>m_data = inc, m_parent = None, m_branches = []\<rparr>]"
  assume body: "(if current < mag \<and> current < bd then
        (let current' = min (min (fl (current + sd)) mag) bd
         in case lerp start endp (fl (current' / mag)) of
              Inl e \<Rightarrow> Some (Inl e)
            | Inr inc \<Rightarrow>
                if inc \<noteq> start then
                  (case isValidTile L inc base of
                     Inl e \<Rightarrow> Some (Inl e)
                   | Inr valid \<Rightarrow>
                       if valid then
                         (case (case branch of None \<Rightarrow> Tree_new h | Some b \<Rightarrow> (b, h)) of
                            (b, h1) \<Rightarrow>
                              (case setData h1 b inc of
                                 Inl e \<Rightarrow> Some (Inl e)
                               | Inr h2 \<Rightarrow> loop L sd bd start endp base mag current' (Some b) h2))
                       else Some (Inr (branch, h)))
                else loop L sd bd start endp base mag current' branch h)
      else Some (Inr (branch, h))) = Some y"
  show "safe_input L sd start endp \<and> 0 \<le> current \<and>
          (\<exists>v. holds h0 v branch h \<and> (\<forall>c. v = Some c \<longrightarrow> in_bounds L c)) \<longrightarrow>
        (\<exists>branch' h' v'. y = Inr (branch', h') \<and> holds h0 v' branch' h' \<and>
           (\<forall>c. v' = Some c \<longrightarrow> in_bounds L c))"
  proof (intro impI, elim conjE exE)
    fix v
    assume safe: "safe_input L sd start endp" and cur: "0 \<le> current"
      and holds: "holds h0 v branch h" and v: "\<forall>c. v = Some c \<longrightarrow> in_bounds L c"
    from safe have level: "valid_level L" "m_width L \<le> 16777216" "m_height L \<le> 16777216"
      and inb: "in_bounds L start" "in_bounds L endp" and sd: "0 \<le> sd"
      by (simp_all add: safe_input_def)
    show "\<exists>branch' h' v'. y = Inr (branch', h') \<and> holds h0 v' branch' h' \<and>
           (\<forall>c. v' = Some c \<longrightarrow> in_bounds L c)"
    proof (cases "current < mag \<and> current < bd")
      case False
      with body have "y = Inr (branch, h)" by simp
      with holds v show ?thesis by blast
    next
      case run: True
      with cur have pos: "0 < mag" "0 < bd" by simp_all
      have "0 \<le> fl (current + sd)" using cur sd by (intro fl_nonneg) simp
      with pos have next_cur: "0 \<le> ?current" and "?current \<le> mag" by simp_all
      then have "0 \<le> ?current / mag" "?current / mag \<le> 1" using pos(1) by simp_all
      from lerp_in_bounds [OF level inb fl_unit [OF this]]
      obtain inc where point: "lerp start endp (fl (?current / mag)) = Inr inc"
        and inside: "in_bounds L inc" by blast
      show ?thesis
      proof (cases "inc = start")
        case True
        with body run point have "loop L sd bd start endp base mag ?current branch h = Some y"
          by (simp add: Let_def)
        from IH [OF this] safe next_cur holds v show ?thesis by blast
      next
        case moved: False
        from isValidTile_in_bounds [OF level(1) inside]
        obtain valid where tile: "isValidTile L inc base = Inr valid" by blast
        show ?thesis
        proof (cases valid)
          case False
          with body run point moved tile have "y = Inr (branch, h)" by (simp add: Let_def)
          with holds v show ?thesis by blast
        next
          case True
          from holds_store [OF holds, of inc]
          have "(case (case branch of None \<Rightarrow> Tree_new h | Some b \<Rightarrow> (b, h)) of
                  (b, h1) \<Rightarrow>
                    (case setData h1 b inc of
                       Inl e \<Rightarrow> Some (Inl e)
                     | Inr h2 \<Rightarrow> loop L sd bd start endp base mag ?current (Some b) h2))
                = loop L sd bd start endp base mag ?current (Some (length h0)) (?h2 inc)"
            by (auto split: prod.splits)
          with body run point moved tile True
          have "loop L sd bd start endp base mag ?current (Some (length h0)) (?h2 inc) = Some y"
            by (simp add: Let_def)
          moreover have "holds h0 (Some inc) (Some (length h0)) (?h2 inc)"
            by (simp add: holds_def)
          ultimately show ?thesis using IH safe next_cur inside by blast
        qed
      qed
    qed
  qed
qed

lemma holds_branch_data: "holds h0 v branch h \<Longrightarrow> branch_data h branch = v"
  by (cases v) (simp_all add: holds_def branch_data_def deref_def)

lemma calculateBranch_safe:
  assumes level: "m_level s = Some L" "valid_level L"
    and dims: "m_width L \<le> 16777216" "m_height L \<le> 16777216"
    and inb: "in_bounds L start" "in_bounds L endp"
    and sd: "0 \<le> m_sampleDistance s"
    and run: "calculateBranch s start endp = Some y"
  shows "y = Inl Overflow \<or>
         (\<exists>branch h'. y = Inr (branch, h') \<and>
            (\<forall>c. branch_data h' branch = Some c \<longrightarrow> in_bounds L c))"
proof (cases "squared_length start endp \<le> 2147483647")
  case False
  then have "\<not> int32 ((fst endp - fst start) * (fst endp - fst start)
                + (snd endp - snd start) * (snd endp - snd start))"
    by (simp add: squared_length_def int32_def)
  with run show ?thesis
    by (simp add: calculateBranch_def level(1) getTile_in_bounds [OF level(2) inb(1)] Let_def)
next
  case True
  from run calculateBranch_unfold [OF level inb True]
  have loop: "calculateBranch_loop L (m_sampleDistance s) (m_branchDistance s) start endp
               (m_tileData L ! (nat (fst start) + nat (snd start) * m_width L))
               (magnitude start endp) 0 None (heap s) = Some y" by simp
  have "safe_input L (m_sampleDistance s) start endp"
    using level(2) dims inb sd by (simp add: safe_input_def)
  moreover have "holds (heap s) None None (heap s) \<and> (\<forall>c. None = Some c \<longrightarrow> in_bounds L c)"
    by (simp add: holds_def)
  then have "\<exists>v. holds (heap s) v None (heap s) \<and> (\<forall>c. v = Some c \<longrightarrow> in_bounds L c)"
    by (rule exI)
  ultimately have "safe_input L (m_sampleDistance s) start endp \<and> (0::real) \<le> 0 \<and>
      (\<exists>v. holds (heap s) v None (heap s) \<and> (\<forall>c. v = Some c \<longrightarrow> in_bounds L c))"
    by simp
  from loop_safe [OF loop, of "heap s", THEN mp, OF this]
  obtain branch h' v where "y = Inr (branch, h')" "holds (heap s) v branch h'"
    "\<forall>c. v = Some c \<longrightarrow> in_bounds L c"
    by blast
  then show ?thesis using holds_branch_data by blast
qed

lemma determineNearest_origin:
  assumes "determineNearest s position = Inr p"
  shows "p = m_tree s \<or> Some p \<in> set (m_nodes s)"
proof -
  from assms obtain d where
    "nearest_scan (heap s) position (m_nodes s) (m_tree s) 2147483647 = Inr (p, d)"
    by (auto simp: determineNearest_def split: sum.splits)
  then show ?thesis by (rule nearest_scan_origin)
qed

lemma addBranch_fresh:
  assumes "deref h p = Some pn"
  shows "addBranch (h @ [Some \<lparr>m_data = c, m_parent = None, m_branches = []\<rparr>]) p (length h)
           = Inr ((h @ [Some \<lparr>m_data = c, m_parent = Some p, m_branches = []\<rparr>])
                    [p := Some (pn\<lparr>m_branches := m_branches pn @ [length h]\<rparr>)])"
proof -
  from assms have "p < length h" by (rule deref_Some_less)
  with assms show ?thesis
    by (simp add: addBranch_def deref_def nth_append list_update_append Let_def)
qed

lemma generateBranch_cases:
  assumes "generateBranch s r1 r2 = Some (Inr s')"
  obtains (same) "s' = s"
  | (discard) "s' = s\<lparr>heap := heap s @ [None]\<rparr>"
  | (graft) L p pn c where "m_level s = Some L" and "hasFinished s = Inr False"
      and "m_start s \<noteq> m_end s" and "p = m_tree s \<or> Some p \<in> set (m_nodes s)"
      and "deref (heap s) p = Some pn"
      and "flatIndex (m_width L) c < length (m_nodes s)"
      and "m_nodes s ! flatIndex (m_width L) c = None"
      and "s' = s\<lparr>m_nodes := (m_nodes s)[flatIndex (m_width L) c := Some (length (heap s))],
                    heap := (heap s @ [Some \<lparr>m_data = c, m_parent = Some p, m_branches = []\<rparr>])
                      [p := Some (pn\<lparr>m_branches := m_branches pn @ [length (heap s)]\<rparr>)]\<rparr>"
      and "calculateBranch s (m_data pn)
             (to_signed (r1 mod m_width L), to_signed (r2 mod m_height L))
             = Some (Inr (Some (length (heap s)),
                 heap s @ [Some \<lparr>m_data = c, m_parent = None, m_branches = []\<rparr>]))"
proof -
  from assms obtain fin where hf: "hasFinished s = Inr fin"
    by (cases "hasFinished s") (simp_all add: generateBranch_def)
  show thesis
  proof (cases "\<not> fin \<and> m_start s \<noteq> m_end s")
    case False
    with assms hf have "s' = s" by (auto simp: generateBranch_def)
    then show thesis by (rule same)
  next
    case go: True
    from hf obtain L where L: "m_level s = Some L"
      by (cases "m_level s") (simp_all add: hasFinished_def)
    let ?random = "(to_signed (r1 mod m_width L), to_signed (r2 mod m_height L))"
    let ?ri = "flatIndex (m_width L) ?random"
    from assms hf go L have dims: "m_width L \<noteq> 0" "m_height L \<noteq> 0"
      by (auto simp: generateBranch_def Let_def split: if_splits)
    from assms hf go L dims have ri: "?ri < length (m_nodes s)"
      by (auto simp: generateBranch_def Let_def split: if_splits)
    note unfold = generateBranch_def Let_def hf L
    show thesis
    proof (cases "m_nodes s ! ?ri = None")
      case False
      with assms go dims ri have "s' = s" by (simp add: unfold)
      then show thesis by (rule same)
    next
      case free: True
      show thesis
      proof (cases "determineNearest s ?random")
        case (Inl e)
        with assms go dims ri free show thesis by (simp add: unfold)
      next
        case near: (Inr p)
        show thesis
        proof (cases "deref (heap s) p")
          case None
          with assms go dims ri free near show thesis by (simp add: unfold)
        next
          case pn: (Some pn)
          show thesis
          proof (cases "calculateBranch s (m_data pn) ?random")
            case None
            with assms go dims ri free near pn show thesis by (simp add: unfold)
          next
            case (Some res)
            show thesis
            proof (cases res)
              case (Inl e)
              with assms go dims ri free near pn Some show thesis by (simp add: unfold)
            next
              case (Inr bh)
              obtain branch h1 where bh: "bh = (branch, h1)" by (cases bh)
              with Some Inr have cb: "calculateBranch s (m_data pn) ?random = Some (Inr (branch, h1))"
                by simp
              from calculateBranch_shape [OF cb] show thesis
              proof (elim disjE conjE exE)
                assume "branch = None" and "h1 = heap s"
                with assms go dims ri free near pn cb have "s' = s" by (simp add: unfold)
                then show thesis by (rule same)
              next
                fix c
                let ?new = "\<lparr>m_data = c, m_parent = None, m_branches = []\<rparr> :: RRTTree"
                assume b: "branch = Some (length (heap s))" and h1: "h1 = heap s @ [Some ?new]"
                have new: "deref h1 (length (heap s)) = Some ?new" by (simp add: h1 deref_def)
                let ?index = "flatIndex (m_width L) c"
                from assms go dims ri free near pn cb b new
                have index: "?index < length (m_nodes s)"
                  by (auto simp: unfold split: if_splits)
                show thesis
                proof (cases "m_nodes s ! ?index = None")
                  case True
                  from assms go dims ri free near pn cb b new index True
                  have "s' = s\<lparr>m_nodes := (m_nodes s)[?index := Some (length (heap s))],
                     heap := (heap s @ [Some \<lparr>m_data = c, m_parent = Some p, m_branches = []\<rparr>])
                       [p := Some (pn\<lparr>m_branches := m_branches pn @ [length (heap s)]\<rparr>)]\<rparr>"
                    by (simp add: unfold h1 addBranch_fresh [OF pn])
                  with L hf go determineNearest_origin [OF near] pn index True cb b h1
                  show thesis by (intro graft [of L p pn c]) simp_all
                next
                  case False
                  have "Tree_delete h1 (length (heap s)) = heap s @ [None]"
                    using Tree_delete_leaf [OF new] by (simp add: h1)
                  with assms go dims ri free near pn cb b new index False
                  have "s' = s\<lparr>heap := heap s @ [None]\<rparr>" by (simp add: unfold)
                  then show thesis by (rule discard)
                qed
              qed
            qed
          qed
        qed
      qed
    qed
  qed
qed

lemma prepareTree_success:
  assumes "prepareTree s0 L start goal = Inr s"
  shows "s = s0\<lparr>m_level := Some L, m_start := start, m_end := goal,
                m_nodes := (replicate (length (m_tileData L) mod 4294967296) None)
                             [flatIndex (m_width L) start := Some (length (heap s0))],
                m_tree := length (heap s0),
                heap := (heap s0)[m_tree s0 := None]
                          @ [Some \<lparr>m_data = start, m_parent = None, m_branches = []\<rparr>]\<rparr>"
    and "flatIndex (m_width L) start < length (m_tileData L) mod 4294967296"
proof -
  from assms obtain n where n: "deref (heap s0) (m_tree s0) = Some n"
    by (cases "deref (heap s0) (m_tree s0)")
       (simp_all add: prepareTree_def Tree_clear_def split: if_splits)
  then have lt: "m_tree s0 < length (heap s0)" by (rule deref_Some_less)
  let ?h1 = "(heap s0)[m_tree s0 := Some (n\<lparr>m_branches := []\<rparr>)]"
  let ?new = "\<lparr>m_data = (0, 0), m_parent = None, m_branches = []\<rparr> :: RRTTree"
  have clear: "Tree_clear (heap s0) (m_tree s0) = Inr ?h1" by (simp add: Tree_clear_def n)
  have new: "Tree_new ?h1 = (length (heap s0), ?h1 @ [Some ?new])" by (simp add: Tree_new_def)
  have "deref (?h1 @ [Some ?new]) (m_tree s0) = Some (n\<lparr>m_branches := []\<rparr>)"
    using lt by (simp add: deref_def nth_append)
  then have del: "Tree_delete (?h1 @ [Some ?new]) (m_tree s0)
                    = (heap s0)[m_tree s0 := None] @ [Some ?new]"
    using lt by (subst Tree_delete_leaf [where n = "n\<lparr>m_branches := []\<rparr>"])
      (simp_all add: list_update_append)
  have set: "setData ((heap s0)[m_tree s0 := None] @ [Some ?new]) (length (heap s0)) start
               = Inr ((heap s0)[m_tree s0 := None]
                        @ [Some \<lparr>m_data = start, m_parent = None, m_branches = []\<rparr>])"
    by (simp add: setData_def deref_def nth_append list_update_append)
  from assms show "flatIndex (m_width L) start < length (m_tileData L) mod 4294967296"
    by (simp add: prepareTree_def clear new del set Let_def split: if_splits)
  with assms show "s = s0\<lparr>m_level := Some L, m_start := start, m_end := goal,
                m_nodes := (replicate (length (m_tileData L) mod 4294967296) None)
                             [flatIndex (m_width L) start := Some (length (heap s0))],
                m_tree := length (heap s0),
                heap := (heap s0)[m_tree s0 := None]
                          @ [Some \<lparr>m_data = start, m_parent = None, m_branches = []\<rparr>]\<rparr>"
    by (simp add: prepareTree_def clear new del set Let_def split: if_splits)
qed

lemma prepareTree_consistent:
  assumes "prepareTree s0 L start goal = Inr s"
  shows "consistent s"
proof -
  note s = prepareTree_success(1) [OF assms] and i = prepareTree_success(2) [OF assms]
  let ?t = "length (heap s0)"
  let ?root = "\<lparr>m_data = start, m_parent = None, m_branches = []\<rparr> :: RRTTree"
  have t: "m_tree s = ?t" by (subst s) simp
  have root: "deref (heap s) ?t = Some ?root" by (subst s) (simp add: deref_def nth_append)
  have nodes: "tree_nodes (heap s) (m_tree s) = {?t}"
    unfolding t by (rule tree_nodes_leaf [OF root]) simp
  have slots: "m_nodes s = (replicate (length (m_tileData L) mod 4294967296) None)
                             [flatIndex (m_width L) start := Some ?t]"
    by (subst s) simp
  have level: "m_level s = Some L" by (subst s) simp
  have occupied: "j = flatIndex (m_width L) start \<and> a = ?t"
    if "j < length (m_nodes s)" "m_nodes s ! j = Some a" for j a
  proof (cases "j = flatIndex (m_width L) start")
    case True
    with that i show ?thesis by (simp add: slots)
  next
    case False
    with that i show ?thesis by (simp add: slots)
  qed
  have A: "\<forall>j a. j < length (m_nodes s) \<and> m_nodes s ! j = Some a \<longrightarrow>
           a \<in> tree_nodes (heap s) (m_tree s) \<and>
           (\<exists>n. deref (heap s) a = Some n \<and> flatIndex (m_width L) (m_data n) = j)"
  proof (intro allI impI)
    fix j a
    assume "j < length (m_nodes s) \<and> m_nodes s ! j = Some a"
    then have "j = flatIndex (m_width L) start \<and> a = ?t" using occupied by blast
    then show "a \<in> tree_nodes (heap s) (m_tree s) \<and>
           (\<exists>n. deref (heap s) a = Some n \<and> flatIndex (m_width L) (m_data n) = j)"
      by (simp add: nodes root)
  qed
  have B: "\<forall>a. a \<in> tree_nodes (heap s) (m_tree s) \<longrightarrow>
           (\<exists>n. deref (heap s) a = Some n \<and>
                flatIndex (m_width L) (m_data n) < length (m_nodes s) \<and>
                m_nodes s ! flatIndex (m_width L) (m_data n) = Some a)"
    using i by (simp add: nodes root slots)
  show ?thesis
    unfolding consistent_def by (intro exI [of _ L] conjI level A B)
qed

lemma consistent_discard:
  assumes "consistent s"
  shows "consistent (s\<lparr>heap := heap s @ [None]\<rparr>)"
proof -
  have d: "deref (heap s @ [None]) a = deref (heap s) a" for a
    by (auto simp: deref_def nth_append)
  have "tree_nodes (heap s @ [None]) (m_tree s) = tree_nodes (heap s) (m_tree s)"
    by (rule tree_nodes_cong) (rule d)
  with assms show ?thesis by (simp add: consistent_def d)
qed

lemma consistent_live:
  assumes "consistent s" and "a \<in> tree_nodes (heap s) (m_tree s)"
  shows "deref (heap s) a \<noteq> None"
  using assms by (auto simp: consistent_def)

lemma consistent_parent:
  assumes "consistent s" and "p = m_tree s \<or> Some p \<in> set (m_nodes s)"
    and "deref (heap s) p = Some pn"
  shows "p \<in> tree_nodes (heap s) (m_tree s)"
  using assms(2)
proof
  assume "p = m_tree s"
  with assms(3) show ?thesis by (auto intro: tree_nodes.root)
next
  assume "Some p \<in> set (m_nodes s)"
  then obtain i where "i < length (m_nodes s)" "m_nodes s ! i = Some p"
    by (auto simp: in_set_conv_nth)
  with assms(1) show ?thesis by (auto simp: consistent_def)
qed

lemma consistent_graft:
  assumes con: "consistent s" and L: "m_level s = Some L"
    and p: "p \<in> tree_nodes (heap s) (m_tree s)" "deref (heap s) p = Some pn"
    and i: "flatIndex (m_width L) c < length (m_nodes s)"
           "m_nodes s ! flatIndex (m_width L) c = None"
    and s': "s' = s\<lparr>m_nodes := (m_nodes s)[flatIndex (m_width L) c := Some (length (heap s))],
                    heap := (heap s @ [Some \<lparr>m_data = c, m_parent = Some p, m_branches = []\<rparr>])
                      [p := Some (pn\<lparr>m_branches := m_branches pn @ [length (heap s)]\<rparr>)]\<rparr>"
  shows "consistent s'"
    and "tree_nodes (heap s') (m_tree s') = insert (length (heap s)) (tree_nodes (heap s) (m_tree s))"
    and "length (heap s) \<notin> tree_nodes (heap s) (m_tree s)"
proof -
  let ?b = "length (heap s)"
  let ?i = "flatIndex (m_width L) c"
  let ?new = "\<lparr>m_data = c, m_parent = Some p, m_branches = []\<rparr> :: RRTTree"
  let ?T = "tree_nodes (heap s) (m_tree s)"
  have plt: "p < ?b" using p(2) by (rule deref_Some_less)
  have heap': "heap s' = (heap s @ [Some ?new])[p := Some (pn\<lparr>m_branches := m_branches pn @ [?b]\<rparr>)]"
    and tree': "m_tree s' = m_tree s" and level': "m_level s' = Some L"
    and slots': "m_nodes s' = (m_nodes s)[?i := Some ?b]"
    by (simp_all add: s' L)
  show T': "tree_nodes (heap s') (m_tree s') = insert ?b ?T"
    unfolding tree'
    by (rule tree_nodes_graft [OF p consistent_live [OF con] _ heap']) simp_all
  show fresh: "?b \<notin> ?T"
    using consistent_live [OF con, of ?b] by (auto simp: deref_def)
  have db: "deref (heap s') ?b = Some ?new" using plt by (simp add: heap' deref_def)
  have old: "\<exists>n'. deref (heap s') a = Some n' \<and> m_data n' = m_data n"
    if "deref (heap s) a = Some n" for a n
  proof -
    from that have "a < ?b" by (rule deref_Some_less)
    with that p(2) show ?thesis
      by (cases "a = p") (auto simp: heap' deref_def nth_append)
  qed
  from con L have slot_tree: "a \<in> ?T \<and> (\<exists>n. deref (heap s) a = Some n \<and> flatIndex (m_width L) (m_data n) = j)"
    if "j < length (m_nodes s)" "m_nodes s ! j = Some a" for j a
    using that by (auto simp: consistent_def)
  from con L have tree_slot: "\<exists>n. deref (heap s) a = Some n \<and>
      flatIndex (m_width L) (m_data n) < length (m_nodes s) \<and>
      m_nodes s ! flatIndex (m_width L) (m_data n) = Some a"
    if "a \<in> ?T" for a
    using that by (auto simp: consistent_def)
  have 1: "a \<in> insert ?b ?T \<and> (\<exists>n. deref (heap s') a = Some n \<and> flatIndex (m_width L) (m_data n) = j)"
    if "j < length (m_nodes s')" "m_nodes s' ! j = Some a" for j a
  proof (cases "j = ?i")
    case True
    with that i(1) have "a = ?b" by (simp add: slots')
    with db True show ?thesis by simp
  next
    case False
    with that have "j < length (m_nodes s)" "m_nodes s ! j = Some a" by (simp_all add: slots')
    from slot_tree [OF this] obtain n where "a \<in> ?T" and n: "deref (heap s) a = Some n"
      "flatIndex (m_width L) (m_data n) = j" by blast
    moreover from old [OF n(1)] obtain n' where "deref (heap s') a = Some n'" "m_data n' = m_data n"
      by blast
    ultimately show ?thesis by simp
  qed
  have 2: "\<exists>n. deref (heap s') a = Some n \<and>
      flatIndex (m_width L) (m_data n) < length (m_nodes s') \<and>
      m_nodes s' ! flatIndex (m_width L) (m_data n) = Some a"
    if "a \<in> insert ?b ?T" for a
  proof (cases "a = ?b")
    case True
    with db i(1) show ?thesis by (simp add: slots')
  next
    case False
    with that have "a \<in> ?T" by simp
    from tree_slot [OF this] obtain n where n: "deref (heap s) a = Some n"
      "flatIndex (m_width L) (m_data n) < length (m_nodes s)"
      "m_nodes s ! flatIndex (m_width L) (m_data n) = Some a" by blast
    from old [OF n(1)] obtain n' where n': "deref (heap s') a = Some n'" "m_data n' = m_data n"
      by blast
    from n(3) i(2) have "flatIndex (m_width L) (m_data n) \<noteq> ?i" by auto
    with n n' show ?thesis by (simp add: slots')
  qed
  have A: "\<forall>j a. j < length (m_nodes s') \<and> m_nodes s' ! j = Some a \<longrightarrow>
           a \<in> tree_nodes (heap s') (m_tree s') \<and>
           (\<exists>n. deref (heap s') a = Some n \<and> flatIndex (m_width L) (m_data n) = j)"
  proof (intro allI impI)
    fix j a
    assume "j < length (m_nodes s') \<and> m_nodes s' ! j = Some a"
    then show "a \<in> tree_nodes (heap s') (m_tree s') \<and>
           (\<exists>n. deref (heap s') a = Some n \<and> flatIndex (m_width L) (m_data n) = j)"
      using 1 [of j a] by (simp add: T')
  qed
  have B: "\<forall>a. a \<in> tree_nodes (heap s') (m_tree s') \<longrightarrow>
           (\<exists>n. deref (heap s') a = Some n \<and>
                flatIndex (m_width L) (m_data n) < length (m_nodes s') \<and>
                m_nodes s' ! flatIndex (m_width L) (m_data n) = Some a)"
  proof (intro allI impI)
    fix a
    assume "a \<in> tree_nodes (heap s') (m_tree s')"
    then have "a \<in> insert ?b ?T" by (simp add: T')
    then show "\<exists>n. deref (heap s') a = Some n \<and>
                flatIndex (m_width L) (m_data n) < length (m_nodes s') \<and>
                m_nodes s' ! flatIndex (m_width L) (m_data n) = Some a"
      by (rule 2)
  qed
  show "consistent s'"
    unfolding consistent_def by (intro exI [of _ L] conjI level' A B)
qed

lemma generateBranch_consistent:
  assumes "consistent s" and "generateBranch s r1 r2 = Some (Inr s')"
  shows "consistent s'"
  using assms(2)
proof (cases rule: generateBranch_cases)
  case same
  with assms(1) show ?thesis by simp
next
  case discard
  with consistent_discard [OF assms(1)] show ?thesis by simp
next
  case (graft L p pn c)
  from consistent_parent [OF assms(1) graft(4,5)]
  show ?thesis
    using consistent_graft(1) [OF assms(1) graft(1) _ graft(5,6,7,8)] by blast
qed

lemma reachable_consistent: "reachable s \<Longrightarrow> consistent s"
  by (induction rule: reachable.induct)
     (auto intro: prepareTree_consistent generateBranch_consistent)

lemma consistent_occupancy:
  assumes "consistent s"
  shows "occupancy_matches_tree s"
proof -
  let ?T = "tree_nodes (heap s) (m_tree s)"
  from assms obtain L where L: "m_level s = Some L"
    and slot: "\<And>i a. i < length (m_nodes s) \<Longrightarrow> m_nodes s ! i = Some a \<Longrightarrow>
           a \<in> ?T \<and> (\<exists>n. deref (heap s) a = Some n \<and> flatIndex (m_width L) (m_data n) = i)"
    and node: "\<And>a. a \<in> ?T \<Longrightarrow>
           (\<exists>n. deref (heap s) a = Some n \<and>
                flatIndex (m_width L) (m_data n) < length (m_nodes s) \<and>
                m_nodes s ! flatIndex (m_width L) (m_data n) = Some a)"
    unfolding consistent_def by blast
  have A: "\<forall>i. i < length (m_nodes s) \<longrightarrow>
           (m_nodes s ! i \<noteq> None) =
           (\<exists>a n. a \<in> ?T \<and> deref (heap s) a = Some n \<and> flatIndex (m_width L) (m_data n) = i)"
  proof (intro allI impI iffI)
    fix i
    assume "i < length (m_nodes s)" and "m_nodes s ! i \<noteq> None"
    then obtain a where "m_nodes s ! i = Some a" by auto
    with slot [of i a] \<open>i < length (m_nodes s)\<close>
    show "\<exists>a n. a \<in> ?T \<and> deref (heap s) a = Some n \<and> flatIndex (m_width L) (m_data n) = i"
      by blast
  next
    fix i
    assume "\<exists>a n. a \<in> ?T \<and> deref (heap s) a = Some n \<and> flatIndex (m_width L) (m_data n) = i"
    then obtain a n where "a \<in> ?T" "deref (heap s) a = Some n"
      "flatIndex (m_width L) (m_data n) = i" by blast
    with node [of a] show "m_nodes s ! i \<noteq> None" by auto
  qed
  have B: "\<forall>a. a \<in> ?T \<longrightarrow>
           (\<exists>n. deref (heap s) a = Some n \<and> flatIndex (m_width L) (m_data n) < length (m_nodes s))"
    using node by blast
  have C: "\<forall>a b n m. a \<in> ?T \<and> b \<in> ?T \<and> deref (heap s) a = Some n \<and> deref (heap s) b = Some m \<and>
           m_data n = m_data m \<longrightarrow> a = b"
  proof (intro allI impI)
    fix a b n m
    assume *: "a \<in> ?T \<and> b \<in> ?T \<and> deref (heap s) a = Some n \<and> deref (heap s) b = Some m \<and>
           m_data n = m_data m"
    with node [of a] have "m_nodes s ! flatIndex (m_width L) (m_data n) = Some a" by auto
    moreover from * node [of b] have "m_nodes s ! flatIndex (m_width L) (m_data m) = Some b" by auto
    ultimately show "a = b" using * by simp
  qed
  show ?thesis
    unfolding occupancy_matches_tree_def by (intro exI [of _ L] conjI L A B C)
qed

lemma generateBranch_idle:
  assumes "hasFinished s = Inr fin" and "fin \<or> m_start s = m_end s"
  shows "generateBranch s r1 r2 = Some (Inr s)"
  using assms by (auto simp: generateBranch_def)

lemma generateBranches_finished:
  assumes "hasFinished s = Inr True"
  shows "generateBranches s rs = Some (Inr s)"
proof (induction rs)
  case Nil
  show ?case by simp
next
  case (Cons r rs)
  obtain r1 r2 where r: "r = (r1, r2)" by (cases r)
  from generateBranch_idle [OF assms, of r1 r2] Cons.IH show ?case
    by (simp add: r)
qed

lemma generateBranch_outcome:
  assumes con: "consistent s" and step: "generateBranch s r1 r2 = Some (Inr s')"
  shows "unchanged s s' \<or> grafted s s'"
  using step
proof (cases rule: generateBranch_cases)
  case same
  then show ?thesis by (simp add: unchanged_def)
next
  case discard
  have d: "deref (heap s @ [None]) a = deref (heap s) a" for a
    by (auto simp: deref_def nth_append)
  have "tree_nodes (heap s @ [None]) (m_tree s) = tree_nodes (heap s) (m_tree s)"
    by (rule tree_nodes_cong) (rule d)
  with discard d show ?thesis by (simp add: unchanged_def)
next
  case (graft L p pn c)
  let ?b = "length (heap s)"
  let ?T = "tree_nodes (heap s) (m_tree s)"
  have p: "p \<in> ?T" by (rule consistent_parent [OF con graft(4,5)])
  note g = consistent_graft [OF con graft(1) p graft(5,6,7,8)]
  have plt: "p < ?b" using graft(5) by (rule deref_Some_less)
  have heap': "heap s' = (heap s @ [Some \<lparr>m_data = c, m_parent = Some p, m_branches = []\<rparr>])
                      [p := Some (pn\<lparr>m_branches := m_branches pn @ [?b]\<rparr>)]"
    and tree': "m_tree s' = m_tree s"
    and slots': "m_nodes s' = (m_nodes s)[flatIndex (m_width L) c := Some ?b]"
    by (simp_all add: graft(8))
  have 1: "deref (heap s) ?b = None" by (simp add: deref_def)
  have 2: "deref (heap s') ?b = Some \<lparr>m_data = c, m_parent = Some p, m_branches = []\<rparr>"
    using plt by (simp add: heap' deref_def)
  have 3: "deref (heap s') p = Some (pn\<lparr>m_branches := m_branches pn @ [?b]\<rparr>)"
    using plt by (simp add: heap' deref_def)
  have 4: "\<forall>a. a \<noteq> ?b \<and> a \<noteq> p \<longrightarrow> deref (heap s') a = deref (heap s) a"
    by (auto simp: heap' deref_def nth_append)
  have "grafted s s'"
    unfolding grafted_def
    by (intro exI [of _ L] exI [of _ ?b] exI [of _ p] exI [of _ pn] exI [of _ c] conjI
          graft(1) g(3) 1 p graft(5) tree' g(2) 2 3 4 graft(6) graft(7) slots')
  then show ?thesis ..
qed


lemma stops_first:
  assumes "stops_at sd bd mag N" and "0 < N"
  shows "0 < mag" and "0 < bd"
proof -
  from assms have "running sd bd mag 0" by (simp add: stops_at_def)
  then show "0 < mag" and "0 < bd" by (simp_all add: running_def)
qed



lemma branch_end_mem:
  assumes "branch_end L base start cs = Some c"
  shows "c \<in> set cs"
proof -
  let ?vs = "takeWhile (\<lambda>c. isValidTile L c base = Inr True) (filter (\<lambda>c. c \<noteq> start) cs)"
  from assms have "?vs \<noteq> []" and "c = last ?vs"
    by (auto simp: branch_end_def Let_def split: if_splits)
  then have "c \<in> set ?vs" by simp
  then have "c \<in> set (filter (\<lambda>c. c \<noteq> start) cs)" by (rule set_takeWhileD [THEN conjunct1])
  then show ?thesis by simp
qed

lemma candidates_between:
  assumes level: "valid_level L" "m_width L \<le> 16777216" "m_height L \<le> 16777216"
    and inb: "in_bounds L start" "in_bounds L endp" and sd: "0 \<le> sd"
    and stops: "stops_at sd bd (magnitude start endp) N"
    and c: "c \<in> set (candidates sd bd start endp N)"
  shows "in_bounds L c"
    and "min (fst start) (fst endp) \<le> fst c" and "fst c \<le> max (fst start) (fst endp)"
    and "min (snd start) (snd endp) \<le> snd c" and "snd c \<le> max (snd start) (snd endp)"
proof -
  from c obtain k where k: "c = candidate sd bd start endp k" and "0 < N"
    by (auto simp: candidates_def)
  from stops_first [OF stops this(2)] have pos: "0 < magnitude start endp" "0 \<le> bd" by simp_all
  note b = candidate_in_bounds [OF level inb sd pos, of k]
  show "in_bounds L c"
    and "min (fst start) (fst endp) \<le> fst c" and "fst c \<le> max (fst start) (fst endp)"
    and "min (snd start) (snd endp) \<le> snd c" and "snd c \<le> max (snd start) (snd endp)"
    unfolding k by (rule b(2) b(3) b(4) b(5) b(6))+
qed

lemma to_signed_small: "n < 2147483648 \<Longrightarrow> to_signed n = int n"
  by (simp add: to_signed_def)

lemma random_in_bounds:
  assumes "valid_level L"
  shows "in_bounds L (to_signed (r1 mod m_width L), to_signed (r2 mod m_height L))"
proof -
  from assms have w: "0 < m_width L" "m_width L < 2147483647"
    and h: "0 < m_height L" "m_height L < 2147483647"
    by (simp_all add: valid_level_def)
  have "r1 mod m_width L < m_width L" "r2 mod m_height L < m_height L"
    using w(1) h(1) by simp_all
  moreover from this w(2) h(2)
  have "to_signed (r1 mod m_width L) = int (r1 mod m_width L)"
    "to_signed (r2 mod m_height L) = int (r2 mod m_height L)"
    by (simp_all add: to_signed_small)
  ultimately show ?thesis by (simp add: in_bounds_def)
qed

lemma hasFinished_total:
  assumes "m_level s = Some L" and "valid_level L"
    and "length (m_nodes s) = m_width L * m_height L"
    and "in_bounds L (m_start s)" and "in_bounds L (m_end s)"
  shows "\<exists>fin. hasFinished s = Inr fin"
  using flatIndex_in_bounds(2) [OF assms(2,4)] flatIndex_in_bounds(2) [OF assms(2,5)] assms(1,3)
  by (cases "m_nodes s ! flatIndex (m_width L) (m_start s) = None")
     (auto simp: hasFinished_def Let_def)

lemma determineNearest_total:
  assumes "\<forall>a. Some a \<in> set (m_nodes s) \<longrightarrow> deref (heap s) a \<noteq> None"
  shows "\<exists>p. determineNearest s position = Inr p"
  using nearest_scan_split [OF assms, of position "m_tree s" 2147483647]
  by (auto simp: determineNearest_def)

lemma consistent_registered_live:
  assumes "consistent s"
  shows "\<forall>a. Some a \<in> set (m_nodes s) \<longrightarrow> deref (heap s) a \<noteq> None"
proof (intro allI impI)
  fix a
  assume "Some a \<in> set (m_nodes s)"
  then obtain i where "i < length (m_nodes s)" "m_nodes s ! i = Some a"
    by (auto simp: in_set_conv_nth)
  with assms show "deref (heap s) a \<noteq> None" unfolding consistent_def by blast
qed

lemma holds_Some:
  assumes "holds h0 (Some c) branch h"
  shows "branch = Some (length h0)"
    and "h = h0 @ [Some \<lparr>m_data = c, m_parent = None, m_branches = []\<rparr>]"
    and "deref h (length h0) = Some \<lparr>m_data = c, m_parent = None, m_branches = []\<rparr>"
  using assms by (simp_all add: holds_def deref_def)

lemma holds_None:
  assumes "holds h0 None branch h"
  shows "branch = None" and "h = h0"
  using assms by (simp_all add: holds_def)

lemma generateBranch_total:
  assumes wf: "well_formed s" and exact: "exact_sampling s"
  shows "\<exists>s'. generateBranch s r1 r2 = Some (Inr s')"
proof -
  from wf obtain L where L: "m_level s = Some L" and valid: "valid_level L"
    and sd: "0 < m_sampleDistance s"
    and len: "length (m_nodes s) = m_width L * m_height L"
    and start: "in_bounds L (m_start s)" and goal: "in_bounds L (m_end s)"
    and con: "consistent s" and root: "deref (heap s) (m_tree s) \<noteq> None"
    and inside: "\<And>a n. a \<in> tree_nodes (heap s) (m_tree s) \<Longrightarrow> deref (heap s) a = Some n
                   \<Longrightarrow> in_bounds L (m_data n)"
    unfolding well_formed_def by blast
  from exact L have small: "m_width L \<le> 32768" "m_height L \<le> 32768"
    and steps: "exact_steps (m_sampleDistance s) (m_branchDistance s)"
    by (auto simp: exact_sampling_def)
  from small have dims24: "m_width L \<le> 16777216" "m_height L \<le> 16777216" by simp_all
  from hasFinished_total [OF L valid len start goal] obtain fin where hf: "hasFinished s = Inr fin"
    by blast
  note unfold = generateBranch_def Let_def hf L
  let ?random = "(to_signed (r1 mod m_width L), to_signed (r2 mod m_height L))"
  let ?ri = "flatIndex (m_width L) ?random"
  have dims: "m_width L \<noteq> 0" "m_height L \<noteq> 0" using valid by (simp_all add: valid_level_def)
  have random: "in_bounds L ?random" by (rule random_in_bounds [OF valid])
  have ri: "?ri < length (m_nodes s)" using flatIndex_in_bounds(2) [OF valid random] len by simp
  show ?thesis
  proof (cases "\<not> fin \<and> m_start s \<noteq> m_end s")
    case False
    then show ?thesis by (auto simp: unfold)
  next
    case go: True
    show ?thesis
    proof (cases "m_nodes s ! ?ri = None")
      case False
      then obtain y where "m_nodes s ! ?ri = Some y" by auto
      with go dims ri show ?thesis by (simp add: unfold)
    next
      case free: True
      from determineNearest_total [OF consistent_registered_live [OF con]]
      obtain p where near: "determineNearest s ?random = Inr p" by blast
      from determineNearest_origin [OF near] root consistent_registered_live [OF con]
      obtain pn where pn: "deref (heap s) p = Some pn" by auto
      have "p \<in> tree_nodes (heap s) (m_tree s)"
        by (rule consistent_parent [OF con determineNearest_origin [OF near] pn])
      then have from_inside: "in_bounds L (m_data pn)" using pn by (rule inside)
      from calculateBranch_exact [OF L valid small from_inside random steps]
      obtain base branch hb N where
        stops: "stops_at (m_sampleDistance s) (m_branchDistance s)
                  (magnitude (m_data pn) ?random) N"
        and run: "calculateBranch s (m_data pn) ?random = Some (Inr (branch, hb))"
        and holds: "holds (heap s)
             (branch_end L base (m_data pn)
                (candidates (m_sampleDistance s) (m_branchDistance s) (m_data pn) ?random N))
             branch hb"
        by blast
      show ?thesis
      proof (cases "branch_end L base (m_data pn)
                (candidates (m_sampleDistance s) (m_branchDistance s) (m_data pn) ?random N)")
        case None
        with holds have "branch = None" by (simp add: holds_def)
        with go dims ri free near pn run show ?thesis by (simp add: unfold)
      next
        case (Some c)
        note new = holds_Some [OF holds [unfolded Some]]
        from branch_end_mem [OF Some]
        have "in_bounds L c"
          by (rule candidates_between(1) [OF valid dims24 from_inside random less_imp_le [OF sd] stops])
        from flatIndex_in_bounds(2) [OF valid this] len
        have index: "flatIndex (m_width L) c < length (m_nodes s)" by simp
        show ?thesis
        proof (cases "m_nodes s ! flatIndex (m_width L) c = None")
          case True
          with go dims ri free near pn run new index addBranch_fresh [OF pn, of c]
          show ?thesis by (simp add: unfold)
        next
          case False
          then obtain y where "m_nodes s ! flatIndex (m_width L) c = Some y" by auto
          with go dims ri free near pn run new index show ?thesis by (simp add: unfold)
        qed
      qed
    qed
  qed
qed

lemma graft_keeps_data:
  assumes "deref h p = Some pn" and "deref h a = Some n"
  shows "\<exists>n'. deref ((h @ [Some new])[p := Some (pn\<lparr>m_branches := bs\<rparr>)]) a = Some n' \<and>
              m_data n' = m_data n"
proof -
  from assms have "p < length h" "a < length h" by (auto dest: deref_Some_less)
  with assms show ?thesis
    by (cases "a = p") (auto simp: deref_def nth_append)
qed

lemma generateBranch_exact_sampling:
  assumes "exact_sampling s" and "generateBranch s r1 r2 = Some (Inr s')"
  shows "exact_sampling s'"
  using assms(2,1) by (cases rule: generateBranch_cases) (auto simp: exact_sampling_def)

lemma generateBranch_well_formed:
  assumes wf: "well_formed s" and exact: "exact_sampling s"
    and step: "generateBranch s r1 r2 = Some (Inr s')"
  shows "well_formed s'"
proof -
  from wf obtain L where L: "m_level s = Some L" and valid: "valid_level L"
    and sd: "0 < m_sampleDistance s"
    and len: "length (m_nodes s) = m_width L * m_height L"
    and start: "in_bounds L (m_start s)" and goal: "in_bounds L (m_end s)"
    and con: "consistent s" and root: "deref (heap s) (m_tree s) \<noteq> None"
    and inside: "\<And>a n. a \<in> tree_nodes (heap s) (m_tree s) \<Longrightarrow> deref (heap s) a = Some n
                   \<Longrightarrow> in_bounds L (m_data n)"
    unfolding well_formed_def by blast
  from exact L have dims24: "m_width L \<le> 16777216" "m_height L \<le> 16777216"
    by (auto simp: exact_sampling_def)
  let ?T = "tree_nodes (heap s) (m_tree s)"
  from step show ?thesis
  proof (cases rule: generateBranch_cases)
    case same
    with wf show ?thesis by simp
  next
    case discard
    have d: "deref (heap s @ [None]) a = deref (heap s) a" for a
      by (auto simp: deref_def nth_append)
    have T: "tree_nodes (heap s @ [None]) (m_tree s) = ?T"
      by (rule tree_nodes_cong) (rule d)
    have "consistent s'" using consistent_discard [OF con] discard by simp
    moreover have "\<forall>a n. a \<in> tree_nodes (heap s') (m_tree s') \<and> deref (heap s') a = Some n \<longrightarrow>
           in_bounds L (m_data n)"
      using inside by (simp add: discard T d) blast
    ultimately show ?thesis
      unfolding well_formed_def using L valid sd len start goal root
      by (intro exI [of _ L]) (simp add: discard d)
  next
    case (graft L' p pn c)
    from graft(1) L have L': "L' = L" by simp
    let ?b = "length (heap s)"
    let ?random = "(to_signed (r1 mod m_width L), to_signed (r2 mod m_height L))"
    have p: "p \<in> ?T" by (rule consistent_parent [OF con graft(4,5)])
    note g = consistent_graft [OF con graft(1) p graft(5,6,7,8)]
    have plt: "p < ?b" using graft(5) by (rule deref_Some_less)
    have fields: "m_level s' = Some L" "m_sampleDistance s' = m_sampleDistance s"
      "m_start s' = m_start s" "m_end s' = m_end s" "m_tree s' = m_tree s"
      "length (m_nodes s') = length (m_nodes s)"
      and heap': "heap s' = (heap s @ [Some \<lparr>m_data = c, m_parent = Some p, m_branches = []\<rparr>])
                      [p := Some (pn\<lparr>m_branches := m_branches pn @ [?b]\<rparr>)]"
      by (simp_all add: graft(8) L)
    have from_inside: "in_bounds L (m_data pn)" using p graft(5) by (rule inside)
    have random: "in_bounds L ?random" by (rule random_in_bounds [OF valid])
    from calculateBranch_safe [OF L valid dims24 from_inside random less_imp_le [OF sd]
        graft(9) [unfolded L']]
    have "\<forall>d. branch_data (heap s @ [Some \<lparr>m_data = c, m_parent = None, m_branches = []\<rparr>])
              (Some ?b) = Some d \<longrightarrow> in_bounds L d"
      by simp
    then have c: "in_bounds L c" by (simp add: branch_data_def deref_def)
    have db: "deref (heap s') ?b = Some \<lparr>m_data = c, m_parent = Some p, m_branches = []\<rparr>"
      using plt by (simp add: heap' deref_def)
    have rootT: "m_tree s \<in> ?T" using root by (rule tree_nodes.root)
    have root': "deref (heap s') (m_tree s') \<noteq> None"
    proof -
      from root obtain n where "deref (heap s) (m_tree s) = Some n" by auto
      from graft_keeps_data [OF graft(5) this,
          of "\<lparr>m_data = c, m_parent = Some p, m_branches = []\<rparr>" "m_branches pn @ [?b]"]
      show ?thesis by (auto simp: heap' fields)
    qed
    have inside': "in_bounds L (m_data n)"
      if "a \<in> tree_nodes (heap s') (m_tree s')" "deref (heap s') a = Some n" for a n
    proof (cases "a = ?b")
      case True
      with that(2) db have "n = \<lparr>m_data = c, m_parent = Some p, m_branches = []\<rparr>" by simp
      with c show ?thesis by simp
    next
      case False
      with that(1) g(2) have a: "a \<in> ?T" by simp
      with consistent_live [OF con] obtain m where m: "deref (heap s) a = Some m" by auto
      from graft_keeps_data [OF graft(5) m,
          of "\<lparr>m_data = c, m_parent = Some p, m_branches = []\<rparr>" "m_branches pn @ [?b]"]
        that(2)
      have "m_data n = m_data m" by (auto simp: heap')
      with inside [OF a m] show ?thesis by simp
    qed
    show ?thesis
      unfolding well_formed_def
    proof (intro exI [of _ L] conjI allI impI)
      fix a n
      assume "a \<in> tree_nodes (heap s') (m_tree s') \<and> deref (heap s') a = Some n"
      then show "in_bounds L (m_data n)" using inside' by blast
    qed (use fields valid sd len start goal g(1) root' in simp_all)
  qed
qed

lemma prepareTree_well_formed:
  assumes valid: "valid_level L" and start: "in_bounds L start" and goal: "in_bounds L goal"
    and root: "deref (heap s0) (m_tree s0) \<noteq> None" and sd: "0 < m_sampleDistance s0"
  shows "\<exists>s. prepareTree s0 L start goal = Inr s \<and> well_formed s"
proof -
  from root obtain n where n: "deref (heap s0) (m_tree s0) = Some n" by auto
  then have lt: "m_tree s0 < length (heap s0)" by (rule deref_Some_less)
  let ?h1 = "(heap s0)[m_tree s0 := Some (n\<lparr>m_branches := []\<rparr>)]"
  let ?new = "\<lparr>m_data = (0, 0), m_parent = None, m_branches = []\<rparr> :: RRTTree"
  let ?root = "\<lparr>m_data = start, m_parent = None, m_branches = []\<rparr> :: RRTTree"
  let ?t = "length (heap s0)"
  have clear: "Tree_clear (heap s0) (m_tree s0) = Inr ?h1" by (simp add: Tree_clear_def n)
  have new: "Tree_new ?h1 = (?t, ?h1 @ [Some ?new])" by (simp add: Tree_new_def)
  have "deref (?h1 @ [Some ?new]) (m_tree s0) = Some (n\<lparr>m_branches := []\<rparr>)"
    using lt by (simp add: deref_def nth_append)
  then have del: "Tree_delete (?h1 @ [Some ?new]) (m_tree s0)
                    = (heap s0)[m_tree s0 := None] @ [Some ?new]"
    using lt by (subst Tree_delete_leaf [where n = "n\<lparr>m_branches := []\<rparr>"])
      (simp_all add: list_update_append)
  have set: "setData ((heap s0)[m_tree s0 := None] @ [Some ?new]) ?t start
               = Inr ((heap s0)[m_tree s0 := None] @ [Some ?root])"
    by (simp add: setData_def deref_def nth_append list_update_append)
  from valid have dims: "m_width L < 2147483648" "m_height L < 2147483648"
    and count: "length (m_tileData L) = m_width L * m_height L"
    "m_width L * m_height L < 4294967296"
    by (simp_all add: valid_level_def)
  have assertion: "fst start \<ge> 0 \<and> fst start < to_signed (m_width L) \<and>
         fst goal \<ge> 0 \<and> snd goal < to_signed (m_height L)"
    using start goal dims by (simp add: in_bounds_def to_signed_small)
  note i = flatIndex_in_bounds(2) [OF valid start]
  let ?s = "s0\<lparr>m_level := Some L, m_start := start, m_end := goal,
                m_nodes := (replicate (length (m_tileData L) mod 4294967296) None)
                             [flatIndex (m_width L) start := Some ?t],
                m_tree := ?t,
                heap := (heap s0)[m_tree s0 := None] @ [Some ?root]\<rparr>"
  have prep: "prepareTree s0 L start goal = Inr ?s"
    using assertion i count by (simp add: prepareTree_def clear new del set Let_def)
  have derefT: "deref (heap ?s) ?t = Some ?root" by (simp add: deref_def nth_append)
  have T: "tree_nodes (heap ?s) (m_tree ?s) = {?t}"
    using tree_nodes_leaf [OF derefT] by simp
  have "well_formed ?s"
    unfolding well_formed_def
  proof (intro exI [of _ L] conjI allI impI)
    show "consistent ?s" using prep by (rule prepareTree_consistent)
    show "deref (heap ?s) (m_tree ?s) \<noteq> None" using derefT by simp
    fix a n'
    assume "a \<in> tree_nodes (heap ?s) (m_tree ?s) \<and> deref (heap ?s) a = Some n'"
    then have "a = ?t" and "deref (heap ?s) a = Some n'" unfolding T by blast+
    then have "deref (heap ?s) ?t = Some n'" by (simp only:)
    with derefT have "n' = ?root" by simp
    with start show "in_bounds L (m_data n')" by simp
  qed (use valid sd start goal count in simp_all)
  with prep show ?thesis by blast
qed

lemma RRT_init_ready:
  assumes "RRT_init sampleDistance branchDistance = Inr s"
  shows "deref (heap s) (m_tree s) \<noteq> None" and "0 < m_sampleDistance s"
  using assms by (auto simp: RRT_init_def Tree_new_def deref_def split: if_splits)

section \<open>Evaluations at concrete inputs\<close>

lemmas prepare_defs = prepareTree_def Tree_clear_def deref_def Tree_new_def Tree_delete_def
  setData_def flatIndex_def to_unsigned_def to_signed_def

lemma replicate_9: "replicate 9 x = [x, x, x, x, x, x, x, x, x]"
  by (simp add: numeral_eq_Suc)

lemma RRT_init_default: "RRT_init (1 / 4) 15 = Inr rrt0"
  by (simp add: RRT_init_def Tree_new_def rrt0_def)

lemma prepare3x3: "prepareTree rrt0 level3x3 (0, 0) (2, 2) = Inr prepared3x3"
  by (simp add: prepare_defs rrt0_def level3x3_def prepared3x3_def replicate_9)

lemma prepare3x3_finished: "prepareTree rrt0 level3x3 (1, 1) (1, 1) = Inr finished3x3"
  by (simp add: prepare_defs rrt0_def level3x3_def finished3x3_def replicate_9)

lemma generateBranch_graftI:
  assumes "hasFinished s = Inr False" and "m_start s \<noteq> m_end s" and "m_level s = Some L"
    and "m_width L \<noteq> 0" and "m_height L \<noteq> 0"
    and "random = (to_signed (r1 mod m_width L), to_signed (r2 mod m_height L))"
    and "flatIndex (m_width L) random < length (m_nodes s)"
    and "m_nodes s ! flatIndex (m_width L) random = None"
    and "determineNearest s random = Inr p"
    and "deref (heap s) p = Some pn"
    and "calculateBranch s (m_data pn) random = Some (Inr (Some b, hb))"
    and "deref hb b = Some bn"
    and "flatIndex (m_width L) (m_data bn) < length (m_nodes s)"
    and "m_nodes s ! flatIndex (m_width L) (m_data bn) = None"
    and "addBranch hb p b = Inr hc"
  shows "generateBranch s r1 r2
           = Some (Inr (s\<lparr>m_nodes := (m_nodes s)[flatIndex (m_width L) (m_data bn) := Some b],
                          heap := hc\<rparr>))"
  using assms by (simp add: generateBranch_def Let_def)

lemma fl_small:
  assumes "x * 1024 \<in> \<int>" and "\<bar>x * 1024\<bar> \<le> 16777216"
  shows "fl x = x"
  using fl_dyadic [of x 10] assms by simp

lemma sqrt_4: "sqrt 4 = 2"
  by (rule real_sqrt_unique) simp_all


lemmas eval_defs = lerp_def lerp_float_def trunc_def int32_def isValidTile_def getTile_def
  to_unsigned_def Tree_new_def setData_def deref_def Let_def fl_small

lemma calculate3x3:
  "calculateBranch prepared3x3 (0, 0) (2, 0)
     = Some (Inr (Some 2, [None, Some \<lparr>m_data = (0, 0), m_parent = None, m_branches = []\<rparr>,
                                 Some \<lparr>m_data = (2, 0), m_parent = None, m_branches = []\<rparr>]))"
  apply (simp add: calculateBranch_def prepared3x3_def level3x3_def getTile_def to_unsigned_def
      int32_def fl_small sqrt_4)
  apply (subst calculateBranch_loop.simps, simp add: eval_defs)+
  done

lemma grow3x3: "generateBranch prepared3x3 2 0 = Some (Inr grown3x3)"
proof -
  have "generateBranch prepared3x3 2 0
          = Some (Inr (prepared3x3\<lparr>m_nodes := (m_nodes prepared3x3)
                          [flatIndex (m_width level3x3) (m_data \<lparr>m_data = (2, 0), m_parent = None, m_branches = []\<rparr>) := Some 2],
                        heap := [None, Some \<lparr>m_data = (0, 0), m_parent = None, m_branches = [2]\<rparr>,
              Some \<lparr>m_data = (2, 0), m_parent = Some 1, m_branches = []\<rparr>]\<rparr>))"
  proof (rule generateBranch_graftI [where random = "(2, 0)" and p = 1
        and pn = "\<lparr>m_data = (0, 0), m_parent = None, m_branches = []\<rparr>"
        and hb = "[None, Some \<lparr>m_data = (0, 0), m_parent = None, m_branches = []\<rparr>,
                                 Some \<lparr>m_data = (2, 0), m_parent = None, m_branches = []\<rparr>]"])
    show "hasFinished prepared3x3 = Inr False"
      by (simp add: hasFinished_def prepared3x3_def level3x3_def flatIndex_def to_unsigned_def)
    show "determineNearest prepared3x3 (2, 0) = Inr 1"
      by (simp add: determineNearest_def prepared3x3_def deref_def)
    show "calculateBranch prepared3x3 (m_data \<lparr>m_data = (0, 0), m_parent = None, m_branches = []\<rparr>) (2, 0)
     = Some (Inr (Some 2, [None, Some \<lparr>m_data = (0, 0), m_parent = None, m_branches = []\<rparr>,
                                 Some \<lparr>m_data = (2, 0), m_parent = None, m_branches = []\<rparr>]))"
      using calculate3x3 by simp
    show "addBranch [None, Some \<lparr>m_data = (0, 0), m_parent = None, m_branches = []\<rparr>,
                                 Some \<lparr>m_data = (2, 0), m_parent = None, m_branches = []\<rparr>] 1 2
       = Inr [None, Some \<lparr>m_data = (0, 0), m_parent = None, m_branches = [2]\<rparr>,
              Some \<lparr>m_data = (2, 0), m_parent = Some 1, m_branches = []\<rparr>]"
      by (simp add: addBranch_def deref_def)
  qed (simp_all add: prepared3x3_def level3x3_def flatIndex_def to_unsigned_def to_signed_def deref_def)
  then show ?thesis
    by (simp add: prepared3x3_def grown3x3_def level3x3_def flatIndex_def to_unsigned_def)
qed

lemma replicate_5: "replicate 5 x = [x, x, x, x, x]"
  by (simp add: numeral_eq_Suc)

lemma prepare5x1: "prepareTree rrt0 level5x1 (0, 0) (4, 0) = Inr prepared5x1"
  by (simp add: prepare_defs rrt0_def level5x1_def prepared5x1_def replicate_5)


lemma last_filter_keep:
  assumes "xs \<noteq> []" and "P (last xs)"
  shows "filter P xs \<noteq> []" and "last (filter P xs) = last xs"
  using assms by (induction xs) (auto split: if_splits)

lemma branch_end_all_valid:
  assumes valid: "\<forall>c \<in> set cs. isValidTile L c base = Inr True"
    and "cs \<noteq> []" and "last cs \<noteq> start"
  shows "branch_end L base start cs = Some (last cs)"
proof -
  let ?fs = "filter (\<lambda>c. c \<noteq> start) cs"
  have tw: "takeWhile (\<lambda>c. isValidTile L c base = Inr True) ?fs = ?fs"
    using valid by simp
  show ?thesis
    unfolding branch_end_def Let_def tw
    using last_filter_keep [of cs "\<lambda>c. c \<noteq> start", OF assms(2,3)] by simp
qed

lemma candidates_last: "0 < N \<Longrightarrow> last (candidates sd bd start endp N) = candidate sd bd start endp N"
  by (cases N) (simp_all add: candidates_def del: upt_Suc add: upt_Suc_append)

lemma sqrt_289: "sqrt 289 = 17"
  by (rule real_sqrt_unique) simp_all

lemma prepare9x16: "prepareTree rrt0 level9x16 (8, 15) (0, 0) = Inr prepared9x16"
  by (simp add: prepare_defs rrt0_def level9x16_def prepared9x16_def)

lemma magnitude9x16: "magnitude (8, 15) (0, 0) = 17"
  by (simp add: magnitude_def squared_length_def fl_small sqrt_289)

lemma exact_default: "exact_steps (1 / 4) 15"
  unfolding exact_steps_def by (intro exI [of _ 1] exI [of _ 2]) simp

lemma stops9x16: "stops_at (1 / 4) 15 17 60"
proof -
  have "exact_steps (1 / 4) (min 17 15)" using exact_default by simp
  from exact_stops [OF this] show ?thesis by (simp add: sample_count_def)
qed

lemma cursor9x16: "cursor (1 / 4) 15 17 60 = 15"
proof -
  have "exact_steps (1 / 4) (min 17 15)" using exact_default by simp
  from cursor_exact [OF this, of 60] show ?thesis by (simp add: sample_count_def cursor_at_def)
qed

lemma fl_squeeze:
  assumes "a \<le> x" and "x \<le> b"
    and "a * 1024 \<in> \<int>" and "\<bar>a * 1024\<bar> \<le> 16777216"
    and "b * 1024 \<in> \<int>" and "\<bar>b * 1024\<bar> \<le> 16777216"
  shows "a \<le> fl x \<and> fl x \<le> b"
  using fl_between [OF assms(1,2) fl_small [OF assms(3,4)] fl_small [OF assms(5,6)]] by simp

lemma candidate9x16: "candidate (1 / 4) 15 (8, 15) (0, 0) 60 = (0, 1)"
proof -
  define t where "t = fl (15 / 17)"
  have t: "225 / 256 \<le> t \<and> t \<le> 227 / 256"
    unfolding t_def by (intro fl_squeeze) simp_all
  define u where "u = fl (- 8 * t)"
  have u: "- (227 / 32) \<le> u \<and> u \<le> - (225 / 32)"
    unfolding u_def by (intro fl_squeeze) (use t in simp_all)
  define x where "x = fl (8 + u)"
  have x: "29 / 32 \<le> x \<and> x \<le> 31 / 32"
    unfolding x_def by (intro fl_squeeze) (use u in simp_all)
  define w where "w = fl (- 15 * t)"
  have w: "- (3405 / 256) \<le> w \<and> w \<le> - (3375 / 256)"
    unfolding w_def by (intro fl_squeeze) (use t in simp_all)
  define y where "y = fl (15 + w)"
  have y: "435 / 256 \<le> y \<and> y \<le> 465 / 256"
    unfolding y_def by (intro fl_squeeze) (use w in simp_all)
  have "trunc x = 0" using x by (simp add: trunc_def floor_eq_iff)
  moreover have "trunc y = 1" using y by (simp add: trunc_def floor_eq_iff)
  moreover have "lerp_float (8, 15) (0, 0) (fl (15 / 17)) = (x, y)"
    by (simp add: lerp_float_def fl_small x_def y_def u_def w_def t_def)
  ultimately show ?thesis
    by (simp add: candidate_def magnitude9x16 cursor9x16 Let_def)
qed

lemma calculate9x16:
  "calculateBranch prepared9x16 (8, 15) (0, 0)
     = Some (Inr (Some 2, [None, Some \<lparr>m_data = (8, 15), m_parent = None, m_branches = []\<rparr>,
                                 Some \<lparr>m_data = (0, 1), m_parent = None, m_branches = []\<rparr>]))"
proof -
  let ?start = "(8, 15) :: Vector2i" and ?target = "(0, 0) :: Vector2i"
  let ?cs = "candidates (1 / 4) 15 ?start ?target 60"
  have level: "m_level prepared9x16 = Some level9x16" "valid_level level9x16"
    and dims: "m_width level9x16 \<le> 16777216" "m_height level9x16 \<le> 16777216"
    and inb: "in_bounds level9x16 ?start" "in_bounds level9x16 ?target"
    and fits: "squared_length ?start ?target \<le> 2147483647"
    and sd: "0 \<le> m_sampleDistance prepared9x16"
    and params: "m_sampleDistance prepared9x16 = 1 / 4" "m_branchDistance prepared9x16 = 15"
    and heap: "heap prepared9x16
                 = [None, Some \<lparr>m_data = (8, 15), m_parent = None, m_branches = []\<rparr>]"
    by (simp_all add: prepared9x16_def level9x16_def valid_level_def in_bounds_def
        squared_length_def)
  have stops: "stops_at (m_sampleDistance prepared9x16) (m_branchDistance prepared9x16)
                 (magnitude ?start ?target) 60"
    by (simp add: params magnitude9x16 stops9x16)
  from calculateBranch_run [OF level dims inb fits sd stops]
  obtain base branch h' where
    tile: "getTile level9x16 (to_unsigned (fst ?start)) (to_unsigned (snd ?start)) = Inr base"
    and run: "calculateBranch prepared9x16 ?start ?target = Some (Inr (branch, h'))"
    and holds: "holds (heap prepared9x16) (branch_end level9x16 base ?start ?cs) branch h'"
    unfolding params by blast
  from tile have base: "base = Terrain"
    by (simp add: getTile_def level9x16_def to_unsigned_def)
  have valid: "isValidTile level9x16 c Terrain = Inr True" if "c \<in> set ?cs" for c
  proof -
    from stops have "stops_at (1 / 4) 15 (magnitude ?start ?target) 60" by (simp add: params)
    from candidates_between(1) [OF level(2) dims inb _ this that]
    have c: "in_bounds level9x16 c" by simp
    from in_bounds_unsigned(3,4) [OF level(2) c]
    have "nat (fst c) + nat (snd c) * m_width level9x16
            < m_width level9x16 * m_height level9x16"
      by (rule cell_index_less)
    then have "m_tileData level9x16 ! (nat (fst c) + nat (snd c) * m_width level9x16) = Terrain"
      by (simp add: level9x16_def)
    with isValidTile_in_bounds [OF level(2) c, of Terrain] show ?thesis by simp
  qed
  have last: "last ?cs = (0, 1)" by (simp add: candidates_last candidate9x16)
  have "?cs \<noteq> []" by (simp add: candidates_def)
  from branch_end_all_valid [OF _ this, of level9x16 Terrain ?start] valid last
  have "branch_end level9x16 Terrain ?start ?cs = Some (0, 1)" by simp
  with holds base have "branch = Some 2"
    and "h' = [None, Some \<lparr>m_data = (8, 15), m_parent = None, m_branches = []\<rparr>,
                     Some \<lparr>m_data = (0, 1), m_parent = None, m_branches = []\<rparr>]"
    by (simp_all add: holds_def heap)
  with run show ?thesis by simp
qed

lemma nearest9x16: "determineNearest prepared9x16 (0, 0) = Inr 1"
proof -
  have scan: "nearest_scan h p (replicate n None) c d = Inr (c, d)" for h p n c d
    by (induction n) simp_all
  have "(replicate 144 None)[143 := Some 1] = replicate 143 None @ [Some (1::nat)]"
    by (simp add: list_eq_iff_nth_eq nth_list_update nth_append)
  moreover have "nearest_scan h p (replicate n None @ xs) c d = nearest_scan h p xs c d"
    for h p n xs c d
    by (induction n) simp_all
  ultimately show ?thesis
    by (simp add: determineNearest_def prepared9x16_def deref_def)
qed

lemma grow9x16: "generateBranch prepared9x16 0 0 = Some (Inr grown9x16)"
proof -
  have "generateBranch prepared9x16 0 0
          = Some (Inr (prepared9x16\<lparr>m_nodes := (m_nodes prepared9x16)
                          [flatIndex (m_width level9x16)
                             (m_data \<lparr>m_data = (0, 1), m_parent = None, m_branches = []\<rparr>) := Some 2],
                        heap := [None, Some \<lparr>m_data = (8, 15), m_parent = None, m_branches = [2]\<rparr>,
              Some \<lparr>m_data = (0, 1), m_parent = Some 1, m_branches = []\<rparr>]\<rparr>))"
  proof (rule generateBranch_graftI [where random = "(0, 0)" and p = 1
        and pn = "\<lparr>m_data = (8, 15), m_parent = None, m_branches = []\<rparr>"
        and hb = "[None, Some \<lparr>m_data = (8, 15), m_parent = None, m_branches = []\<rparr>,
                                 Some \<lparr>m_data = (0, 1), m_parent = None, m_branches = []\<rparr>]"])
    show "hasFinished prepared9x16 = Inr False"
      by (simp add: hasFinished_def prepared9x16_def level9x16_def flatIndex_def to_unsigned_def)
    show "determineNearest prepared9x16 (0, 0) = Inr 1" by (rule nearest9x16)
    show "calculateBranch prepared9x16 (m_data \<lparr>m_data = (8, 15), m_parent = None, m_branches = []\<rparr>) (0, 0)
     = Some (Inr (Some 2, [None, Some \<lparr>m_data = (8, 15), m_parent = None, m_branches = []\<rparr>,
                                 Some \<lparr>m_data = (0, 1), m_parent = None, m_branches = []\<rparr>]))"
      using calculate9x16 by simp
    show "addBranch [None, Some \<lparr>m_data = (8, 15), m_parent = None, m_branches = []\<rparr>,
                                 Some \<lparr>m_data = (0, 1), m_parent = None, m_branches = []\<rparr>] 1 2
       = Inr [None, Some \<lparr>m_data = (8, 15), m_parent = None, m_branches = [2]\<rparr>,
              Some \<lparr>m_data = (0, 1), m_parent = Some 1, m_branches = []\<rparr>]"
      by (simp add: addBranch_def deref_def)
  qed (simp_all add: prepared9x16_def level9x16_def flatIndex_def to_unsigned_def to_signed_def deref_def)
  then show ?thesis
    by (simp add: prepared9x16_def grown9x16_def level9x16_def flatIndex_def to_unsigned_def)
qed









lemma fl_15_19: "fl (15 / 19) = 13245171 / 16777216"
  by (subst fl_eval [where e = "- 1"]) (simp_all add: round_even_def powr_minus)

lemma fl_15_19_product: "fl (- (251658249 / 16777216)) = - (15728641 / 1048576)"
  by (subst fl_eval [where e = 3]) (simp_all add: round_even_def powr_minus)

lemma fl_15_19_sum: "fl (4194303 / 1048576) = 4194303 / 1048576"
  by (rule fl_dyadic [where k = 20]) simp_all

lemma lerp_rounds_down: "lerp (19, 0) (0, 0) (fl (15 / 19)) = Inr (3, 0)"
  by (simp add: lerp_def lerp_float_def Let_def int32_def trunc_def fl_small fl_15_19
      fl_15_19_product fl_15_19_sum)

text \<open>
  At the default parameters on a row of 20 tiles, from \<open>(19, 0)\<close> toward \<open>(0, 0)\<close>: the
  cursor stops at \<open>15\<close>, where the exact interpolation is \<open>4\<close>; the rounded quotient,
  product and sum give \<open>4194303 / 1048576\<close>, truncated to \<open>3\<close>.
\<close>

lemma calculateBranch_terrain:
  assumes level: "m_level s = Some L" "valid_level L"
    and dims: "m_width L \<le> 16777216" "m_height L \<le> 16777216"
    and inb: "in_bounds L start" "in_bounds L endp"
    and fits: "squared_length start endp \<le> 2147483647"
    and sd: "0 \<le> m_sampleDistance s"
    and stops: "stops_at (m_sampleDistance s) (m_branchDistance s) (magnitude start endp) N"
    and tiles: "m_tileData L = replicate (m_width L * m_height L) Terrain"
    and N: "0 < N"
    and moved: "candidate (m_sampleDistance s) (m_branchDistance s) start endp N \<noteq> start"
  shows "calculateBranch s start endp
           = Some (Inr (Some (length (heap s)),
               heap s @ [Some \<lparr>m_data = candidate (m_sampleDistance s) (m_branchDistance s)
                                           start endp N,
                                m_parent = None, m_branches = []\<rparr>]))"
proof -
  let ?cs = "candidates (m_sampleDistance s) (m_branchDistance s) start endp N"
  from calculateBranch_run [OF level dims inb fits sd stops]
  obtain base branch h' where
    tile: "getTile L (to_unsigned (fst start)) (to_unsigned (snd start)) = Inr base"
    and run: "calculateBranch s start endp = Some (Inr (branch, h'))"
    and holds: "holds (heap s) (branch_end L base start ?cs) branch h'"
    by blast
  have terrain: "m_tileData L ! (nat (fst c) + nat (snd c) * m_width L) = Terrain"
    if "in_bounds L c" for c
  proof -
    from in_bounds_unsigned(3,4) [OF level(2) that]
    have "nat (fst c) + nat (snd c) * m_width L < m_width L * m_height L"
      by (rule cell_index_less)
    then show ?thesis by (simp add: tiles)
  qed
  from tile have base: "base = Terrain"
    by (simp add: getTile_in_bounds [OF level(2) inb(1)] terrain [OF inb(1)])
  have valid: "\<forall>c \<in> set ?cs. isValidTile L c Terrain = Inr True"
  proof
    fix c
    assume "c \<in> set ?cs"
    from candidates_between(1) [OF level(2) dims inb sd stops this]
    have c: "in_bounds L c" .
    from isValidTile_in_bounds [OF level(2) c, of Terrain] terrain [OF c]
    show "isValidTile L c Terrain = Inr True" by simp
  qed
  have "?cs \<noteq> []" using N by (simp add: candidates_def)
  moreover have "last ?cs \<noteq> start" using N moved by (simp add: candidates_last)
  ultimately have "branch_end L Terrain start ?cs = Some (last ?cs)"
    by (rule branch_end_all_valid [OF valid])
  with holds base N run show ?thesis by (simp add: holds_def candidates_last)
qed

lemma sqrt_361: "sqrt 361 = 19"
  by (rule real_sqrt_unique) simp_all

lemma prepare20x1: "prepareTree rrt0 level20x1 (19, 0) (0, 0) = Inr prepared20x1"
  by (simp add: prepare_defs rrt0_def level20x1_def prepared20x1_def)

lemma magnitude20x1: "magnitude (19, 0) (0, 0) = 19"
  by (simp add: magnitude_def squared_length_def fl_small sqrt_361)

lemma stops20x1: "stops_at (1 / 4) 15 19 60"
proof -
  have "exact_steps (1 / 4) (min 19 15)" using exact_default by simp
  from exact_stops [OF this] show ?thesis by (simp add: sample_count_def)
qed

lemma cursor20x1: "cursor (1 / 4) 15 19 60 = 15"
proof -
  have "exact_steps (1 / 4) (min 19 15)" using exact_default by simp
  from cursor_exact [OF this, of 60] show ?thesis by (simp add: sample_count_def cursor_at_def)
qed

lemma candidate20x1: "candidate (1 / 4) 15 (19, 0) (0, 0) 60 = (3, 0)"
  using lerp_rounds_down
  by (simp add: candidate_def magnitude20x1 cursor20x1 lerp_def Let_def int32_def
      split: if_splits)

lemma calculate20x1:
  "calculateBranch prepared20x1 (19, 0) (0, 0)
     = Some (Inr (Some 2, [None, Some \<lparr>m_data = (19, 0), m_parent = None, m_branches = []\<rparr>,
                                 Some \<lparr>m_data = (3, 0), m_parent = None, m_branches = []\<rparr>]))"
proof -
  let ?start = "(19, 0) :: Vector2i" and ?target = "(0, 0) :: Vector2i"
  have level: "m_level prepared20x1 = Some level20x1" "valid_level level20x1"
    and dims: "m_width level20x1 \<le> 16777216" "m_height level20x1 \<le> 16777216"
    and inb: "in_bounds level20x1 ?start" "in_bounds level20x1 ?target"
    and fits: "squared_length ?start ?target \<le> 2147483647"
    and sd: "0 \<le> m_sampleDistance prepared20x1"
    and params: "m_sampleDistance prepared20x1 = 1 / 4" "m_branchDistance prepared20x1 = 15"
    and heap: "heap prepared20x1
                 = [None, Some \<lparr>m_data = (19, 0), m_parent = None, m_branches = []\<rparr>]"
    and tiles: "m_tileData level20x1
                 = replicate (m_width level20x1 * m_height level20x1) Terrain"
    by (simp_all add: prepared20x1_def level20x1_def valid_level_def in_bounds_def
        squared_length_def)
  have stops: "stops_at (m_sampleDistance prepared20x1) (m_branchDistance prepared20x1)
                 (magnitude ?start ?target) 60"
    by (simp add: params magnitude20x1 stops20x1)
  have moved: "candidate (m_sampleDistance prepared20x1) (m_branchDistance prepared20x1)
                 ?start ?target 60 \<noteq> ?start"
    by (simp add: params candidate20x1)
  from calculateBranch_terrain [OF level dims inb fits sd stops tiles _ moved]
  show ?thesis by (simp add: params candidate20x1 heap)
qed

text \<open>
  A sample step of \<open>2 ^ -30\<close>: after \<open>2 ^ 24\<close> iterations the cursor is \<open>1 / 64\<close>, where the
  sum with the step rounds back to the cursor; every candidate so far is the start, and
  the loop does not return.
\<close>

lemma prepare_slow3x3:
  "RRT_init (1 / 2 ^ 30) 15 = Inr (rrt0\<lparr>m_sampleDistance := 1 / 2 ^ 30\<rparr>) \<and>
   prepareTree (rrt0\<lparr>m_sampleDistance := 1 / 2 ^ 30\<rparr>) level3x3 (0, 0) (2, 2) = Inr slow3x3"
  by (simp add: RRT_init_def prepare_defs rrt0_def level3x3_def slow3x3_def prepared3x3_def
      replicate_9)

lemma fl_stuck: "fl (16777217 / 1073741824) = 1 / 64"
  by (subst fl_eval [where e = "- 6"]) (simp_all add: round_even_def powr_minus)

lemma lerp_near_start:
  assumes "0 \<le> t" and "t < 1" and "fl t = t"
  shows "lerp (0, 0) (1, 0) t = Inr (0, 0)"
  using assms
  by (simp add: lerp_def lerp_float_def Let_def int32_def trunc_def fl_zero fl_one floor_eq_iff)

lemma loop_stuck:
  assumes "calculateBranch_loop L sd bd start endp base mag current branch h = Some y"
  shows "\<not> (sd = 1 / 2 ^ 30 \<and> bd = 15 \<and> mag = 1 \<and> current = 1 / 64 \<and>
            start = (0, 0) \<and> endp = (1, 0))"
proof (rule calculateBranch_loop.raw_induct
    [where P = "\<lambda>L sd bd start endp base mag current branch h y.
       \<not> (sd = 1 / 2 ^ 30 \<and> bd = 15 \<and> mag = 1 \<and> current = 1 / 64 \<and>
          start = (0, 0) \<and> endp = (1, 0))", OF _ assms])
  fix loop :: "LevelData \<Rightarrow> real \<Rightarrow> real \<Rightarrow> Vector2i \<Rightarrow> Vector2i \<Rightarrow> TileType \<Rightarrow> real \<Rightarrow>
      real \<Rightarrow> nat option \<Rightarrow> store \<Rightarrow> (error + nat option \<times> store) option"
    and L :: LevelData and sd bd mag current :: real and start endp :: Vector2i
    and base :: TileType and branch :: "nat option" and h :: store
    and y :: "error + nat option \<times> store"
  assume IH: "\<And>L sd bd start endp base mag current branch h y.
           loop L sd bd start endp base mag current branch h = Some y \<Longrightarrow>
           \<not> (sd = 1 / 2 ^ 30 \<and> bd = 15 \<and> mag = 1 \<and> current = 1 / 64 \<and>
              start = (0, 0) \<and> endp = (1, 0))"
  assume body: "(if current < mag \<and> current < bd then
        (let current' = min (min (fl (current + sd)) mag) bd
         in case lerp start endp (fl (current' / mag)) of
              Inl e \<Rightarrow> Some (Inl e)
            | Inr inc \<Rightarrow>
                if inc \<noteq> start then
                  (case isValidTile L inc base of
                     Inl e \<Rightarrow> Some (Inl e)
                   | Inr valid \<Rightarrow>
                       if valid then
                         (case (case branch of None \<Rightarrow> Tree_new h | Some b \<Rightarrow> (b, h)) of
                            (b, h1) \<Rightarrow>
                              (case setData h1 b inc of
                                 Inl e \<Rightarrow> Some (Inl e)
                               | Inr h2 \<Rightarrow> loop L sd bd start endp base mag current' (Some b) h2))
                       else Some (Inr (branch, h)))
                else loop L sd bd start endp base mag current' branch h)
      else Some (Inr (branch, h))) = Some y"
  show "\<not> (sd = 1 / 2 ^ 30 \<and> bd = 15 \<and> mag = 1 \<and> current = 1 / 64 \<and>
            start = (0, 0) \<and> endp = (1, 0))"
  proof
    assume stuck: "sd = 1 / 2 ^ 30 \<and> bd = 15 \<and> mag = 1 \<and> current = 1 / 64 \<and>
            start = (0, 0) \<and> endp = (1, 0)"
    then have eqs: "sd = 1 / 2 ^ 30" "bd = 15" "mag = 1" "current = 1 / 64"
      "start = (0, 0)" "endp = (1, 0)" by blast+
    have f: "fl (1 / 64) = 1 / 64" by (rule fl_dyadic [where k = 6]) simp_all
    have near: "lerp (0, 0) (1, 0) (1 / 64) = Inr (0, 0)"
      using f by (intro lerp_near_start) simp_all
    from body [unfolded eqs]
    have "loop L (1 / 2 ^ 30) 15 (0, 0) (1, 0) base 1 (1 / 64) branch h = Some y"
      by (simp add: fl_stuck f near Let_def)
    then have "loop L sd bd start endp base mag current branch h = Some y"
      by (simp only: eqs)
    from IH [OF this] stuck show False by simp
  qed
qed

lemma loop_pass:
  assumes "current < mag \<and> current < bd"
    and "min (min (fl (current + sd)) mag) bd = next_cursor"
    and "lerp start endp (fl (next_cursor / mag)) = Inr start"
  shows "calculateBranch_loop L sd bd start endp base mag current branch h
           = calculateBranch_loop L sd bd start endp base mag next_cursor branch h"
  by (subst calculateBranch_loop.simps) (simp add: assms Let_def)

lemma loop_skip:
  assumes "k < 16777216"
  shows "calculateBranch_loop L (1 / 2 ^ 30) 15 (0, 0) (1, 0) base 1 (real k / 2 ^ 30) branch h
           = calculateBranch_loop L (1 / 2 ^ 30) 15 (0, 0) (1, 0) base 1 (real (Suc k) / 2 ^ 30)
               branch h"
proof (rule loop_pass)
  let ?c = "real (Suc k) / 2 ^ 30"
  have small: "?c \<le> 1 / 64" using assms by (simp add: field_simps)
  have f: "fl ?c = ?c"
    using fl_exact [of "int (Suc k)" 30] assms by simp
  have sum: "real k / 2 ^ 30 + 1 / 2 ^ 30 = ?c" by (simp add: field_simps)
  show "real k / 2 ^ 30 < 1 \<and> real k / 2 ^ 30 < 15" using assms by (simp add: field_simps)
  show "min (min (fl (real k / 2 ^ 30 + 1 / 2 ^ 30)) 1) 15 = ?c"
    unfolding sum f using small by simp
  have "fl (?c / 1) = ?c" using f by simp
  moreover have "lerp (0, 0) (1, 0) ?c = Inr (0, 0)"
    using f small by (intro lerp_near_start) simp_all
  ultimately show "lerp (0, 0) (1, 0) (fl (?c / 1)) = Inr (0, 0)" by (simp only:)
qed

lemma loop_skips:
  assumes "k \<le> 16777216"
  shows "calculateBranch_loop L (1 / 2 ^ 30) 15 (0, 0) (1, 0) base 1 0 branch h
           = calculateBranch_loop L (1 / 2 ^ 30) 15 (0, 0) (1, 0) base 1 (real k / 2 ^ 30) branch h"
  using assms
proof (induction k)
  case 0
  show ?case by simp
next
  case (Suc k)
  then have "k < 16777216" by simp
  from loop_skip [OF this] Suc show ?case by simp
qed

lemma calculateBranch_diverges: "calculateBranch slow3x3 (0, 0) (1, 0) = None"
proof -
  let ?loop = "calculateBranch_loop level3x3 (1 / 2 ^ 30) 15 (0, 0) (1, 0) Terrain 1"
  have "sqrt 1 = (1::real)" by simp
  then have "calculateBranch slow3x3 (0, 0) (1, 0) = ?loop 0 None (heap prepared3x3)"
    by (simp add: calculateBranch_def slow3x3_def prepared3x3_def level3x3_def getTile_def
        to_unsigned_def int32_def fl_one Let_def)
  also have "\<dots> = ?loop (real 16777216 / 2 ^ 30) None (heap prepared3x3)"
    by (rule loop_skips) simp
  also have "real 16777216 / 2 ^ 30 = (1 / 64 :: real)" by simp
  also have "?loop (1 / 64) None (heap prepared3x3) = None"
  proof (cases "?loop (1 / 64) None (heap prepared3x3)")
    case (Some y)
    from loop_stuck [OF this] show ?thesis by simp
  qed simp
  finally show ?thesis .
qed

lemma generateBranch_diverges: "generateBranch slow3x3 1 0 = None"
proof -
  have fields: "m_level slow3x3 = Some level3x3" "m_start slow3x3 = (0, 0)"
    "m_end slow3x3 = (2, 2)"
    "m_nodes slow3x3 = [Some 1, None, None, None, None, None, None, None, None]"
    "deref (heap slow3x3) (Suc 0) = Some \<lparr>m_data = (0, 0), m_parent = None, m_branches = []\<rparr>"
    by (simp_all add: slow3x3_def prepared3x3_def deref_def)
  have "hasFinished slow3x3 = Inr False"
    by (simp add: hasFinished_def fields level3x3_def flatIndex_def to_unsigned_def)
  moreover have "determineNearest slow3x3 (1, 0) = Inr 1"
    by (simp add: determineNearest_def slow3x3_def prepared3x3_def deref_def)
  ultimately show ?thesis
    using calculateBranch_diverges
    by (simp add: generateBranch_def Let_def fields level3x3_def flatIndex_def to_unsigned_def
        to_signed_def)
qed

section \<open>Sampling inside levels of at most \<open>2 ^ 24\<close> columns and rows\<close>

text \<open>
  For a start and a target inside a well-formed level at most \<open>2 ^ 24 = 16777216\<close> wide
  and high, every candidate the loop reaches is inside the level, each of its
  components lying between the components of start and target, and its terrain lookup
  succeeds; a \<open>calculateBranch\<close> that returns fails no assertion and reads no tile out of
  range (its only error is a squared distance outside \<^verbatim>\<open>int\<close>), and the coordinate of
  the branch it returns is inside the level. With a level at most \<open>32768\<close> wide and high
  and exact steps it returns a branch or none.
\<close>

lemma sampling_in_bounds:
  assumes "m_level s = Some L" and "valid_level L"
    and "m_width L \<le> 16777216" and "m_height L \<le> 16777216"
    and "in_bounds L start" and "in_bounds L endp"
    and "0 \<le> m_sampleDistance s"
  shows "(\<forall>k. 0 < k \<and>
            (\<forall>j < k. running (m_sampleDistance s) (m_branchDistance s) (magnitude start endp) j) \<longrightarrow>
            (let c = candidate (m_sampleDistance s) (m_branchDistance s) start endp k
             in lerp start endp
                  (fl (cursor (m_sampleDistance s) (m_branchDistance s) (magnitude start endp) k
                       / magnitude start endp)) = Inr c \<and>
                in_bounds L c \<and>
                min (fst start) (fst endp) \<le> fst c \<and> fst c \<le> max (fst start) (fst endp) \<and>
                min (snd start) (snd endp) \<le> snd c \<and> snd c \<le> max (snd start) (snd endp) \<and>
                (\<exists>t. getTile L (to_unsigned (fst c)) (to_unsigned (snd c)) = Inr t))) \<and>
         (\<forall>y. calculateBranch s start endp = Some y \<longrightarrow>
            y = Inl Overflow \<or>
            (\<exists>branch h'. y = Inr (branch, h') \<and>
               (\<forall>c. branch_data h' branch = Some c \<longrightarrow> in_bounds L c))) \<and>
         (m_width L \<le> 32768 \<and> m_height L \<le> 32768 \<and>
          exact_steps (m_sampleDistance s) (m_branchDistance s) \<longrightarrow>
            (\<exists>branch h'. calculateBranch s start endp = Some (Inr (branch, h'))))"
proof (intro conjI allI impI)
  fix k
  let ?c = "candidate (m_sampleDistance s) (m_branchDistance s) start endp k"
  assume "0 < k \<and>
     (\<forall>j < k. running (m_sampleDistance s) (m_branchDistance s) (magnitude start endp) j)"
  then have "running (m_sampleDistance s) (m_branchDistance s) (magnitude start endp) 0"
    by simp
  then have pos: "0 < magnitude start endp" "0 \<le> m_branchDistance s"
    by (simp_all add: running_def)
  note b = candidate_in_bounds [OF assms(2-7) pos, of k]
  from getTile_in_bounds [OF assms(2) b(2)]
  have "\<exists>t. getTile L (to_unsigned (fst ?c)) (to_unsigned (snd ?c)) = Inr t" by blast
  with b show "let c = ?c
     in lerp start endp
          (fl (cursor (m_sampleDistance s) (m_branchDistance s) (magnitude start endp) k
               / magnitude start endp)) = Inr c \<and>
        in_bounds L c \<and>
        min (fst start) (fst endp) \<le> fst c \<and> fst c \<le> max (fst start) (fst endp) \<and>
        min (snd start) (snd endp) \<le> snd c \<and> snd c \<le> max (snd start) (snd endp) \<and>
        (\<exists>t. getTile L (to_unsigned (fst c)) (to_unsigned (snd c)) = Inr t)"
    by (simp add: Let_def)
next
  fix y
  assume "calculateBranch s start endp = Some y"
  with assms show "y = Inl Overflow \<or>
            (\<exists>branch h'. y = Inr (branch, h') \<and>
               (\<forall>c. branch_data h' branch = Some c \<longrightarrow> in_bounds L c))"
    by (rule calculateBranch_safe)
next
  assume "m_width L \<le> 32768 \<and> m_height L \<le> 32768 \<and>
          exact_steps (m_sampleDistance s) (m_branchDistance s)"
  then have "m_width L \<le> 32768" "m_height L \<le> 32768"
    "exact_steps (m_sampleDistance s) (m_branchDistance s)" by simp_all
  from calculateBranch_exact [OF assms(1,2) this(1,2) assms(5,6) this(3)]
  show "\<exists>branch h'. calculateBranch s start endp = Some (Inr (branch, h'))" by blast
qed

section \<open>Claims\<close>

text \<open>
  C1. For an in-bounds position of a well-formed level and any base category,
  \<open>isValidTile\<close> returns the base-dependent rule applied to the category stored at
  the position: with base \<open>OutOfBounds\<close> or \<open>Tree\<close> it is true iff the category is
  neither of the two, with base \<open>Water\<close> iff the category is \<open>Water\<close>, with any
  other base iff the category is \<open>Terrain\<close> or \<open>Swamp\<close>.
\<close>

theorem isValidTile_rule:
  assumes "valid_level L" and "in_bounds L position"
  shows "isValidTile L position base =
           Inr (let type = m_tileData L ! (nat (fst position) + nat (snd position) * m_width L)
                in if base = OutOfBounds \<or> base = Tree
                   then type \<noteq> OutOfBounds \<and> type \<noteq> Tree
                   else if base = Water then type = Water
                   else type = Terrain \<or> type = Swamp)"
  unfolding isValidTile_def getTile_in_bounds [OF assms]
  by (cases base) (simp_all add: Let_def)

theorem isValidTile_rule_witness:
  "isValidTile level2x2 (1, 0) Water = Inr True \<and>
   isValidTile level2x2 (0, 0) Water = Inr False \<and>
   isValidTile level2x2 (0, 1) OutOfBounds = Inr True \<and>
   isValidTile level2x2 (1, 1) OutOfBounds = Inr False"
  using isValidTile_rule [of level2x2 "(1, 0)" Water]
    isValidTile_rule [of level2x2 "(0, 0)" Water]
    isValidTile_rule [of level2x2 "(0, 1)" OutOfBounds]
    isValidTile_rule [of level2x2 "(1, 1)" OutOfBounds]
  by (simp add: valid_level_def in_bounds_def level2x2_def)

text \<open>
  C4. When every registered pointer refers to a live node and some registered node lies
  at a Manhattan distance below \<^verbatim>\<open>INT_MAX\<close> from the sampled coordinate,
  \<open>determineNearest\<close> returns a registered node of least Manhattan distance to the
  sample, and every slot before the returned one in index order holds a node strictly
  farther away: among the nodes at the least distance the first slot wins.
\<close>

theorem determineNearest_first_minimum:
  assumes live: "\<forall>a. Some a \<in> set (m_nodes s) \<longrightarrow> deref (heap s) a \<noteq> None"
    and near: "\<exists>a. Some a \<in> set (m_nodes s) \<and> node_distance (heap s) r a < 2147483647"
  shows "\<exists>i c. determineNearest s r = Inr c \<and> i < length (m_nodes s) \<and> m_nodes s ! i = Some c \<and>
           (\<forall>j b. j < length (m_nodes s) \<and> m_nodes s ! j = Some b \<longrightarrow>
                    node_distance (heap s) r c \<le> node_distance (heap s) r b) \<and>
           (\<forall>j b. j < i \<and> m_nodes s ! j = Some b \<longrightarrow>
                    node_distance (heap s) r c < node_distance (heap s) r b)"
proof -
  from nearest_scan_split [OF live, of r "m_tree s" 2147483647] near
  obtain pre c post where xs: "m_nodes s = pre @ Some c # post"
    and res: "nearest_scan (heap s) r (m_nodes s) (m_tree s) 2147483647
                = Inr (c, node_distance (heap s) r c)"
    and before: "\<forall>b. Some b \<in> set pre \<longrightarrow> node_distance (heap s) r c < node_distance (heap s) r b"
    and after: "\<forall>b. Some b \<in> set post \<longrightarrow> node_distance (heap s) r c \<le> node_distance (heap s) r b"
    by (fastforce simp: not_le)
  have 1: "determineNearest s r = Inr c" by (simp add: determineNearest_def res)
  have 2: "length pre < length (m_nodes s)" "m_nodes s ! length pre = Some c"
    by (simp_all add: xs)
  have 3: "node_distance (heap s) r c \<le> node_distance (heap s) r b"
    if "j < length (m_nodes s)" "m_nodes s ! j = Some b" for j b
  proof -
    from that have "Some b \<in> set (m_nodes s)" by (metis nth_mem)
    then have "Some b \<in> set pre \<or> b = c \<or> Some b \<in> set post" by (auto simp: xs)
    with before after show ?thesis by fastforce
  qed
  have 4: "node_distance (heap s) r c < node_distance (heap s) r b"
    if "j < length pre" "m_nodes s ! j = Some b" for j b
  proof -
    from that have "pre ! j = Some b" by (simp add: xs nth_append)
    with that(1) have "Some b \<in> set pre" by (metis nth_mem)
    with before show ?thesis by simp
  qed
  from 1 2 3 4 show ?thesis by blast
qed

theorem determineNearest_first_minimum_witness:
  "\<exists>i c. determineNearest session3x3 (2, 2) = Inr c \<and> i < length (m_nodes session3x3) \<and>
     m_nodes session3x3 ! i = Some c \<and>
     (\<forall>j b. j < length (m_nodes session3x3) \<and> m_nodes session3x3 ! j = Some b \<longrightarrow>
        node_distance (heap session3x3) (2, 2) c \<le> node_distance (heap session3x3) (2, 2) b) \<and>
     (\<forall>j b. j < i \<and> m_nodes session3x3 ! j = Some b \<longrightarrow>
        node_distance (heap session3x3) (2, 2) c < node_distance (heap session3x3) (2, 2) b)"
proof (rule determineNearest_first_minimum)
  show "\<forall>a. Some a \<in> set (m_nodes session3x3) \<longrightarrow> deref (heap session3x3) a \<noteq> None"
    by (auto simp: session3x3_def deref_def)
  have "Some 2 \<in> set (m_nodes session3x3)" by (simp add: session3x3_def)
  moreover have "node_distance (heap session3x3) (2, 2) 2 < 2147483647"
    by (simp add: session3x3_def node_distance_def deref_def manhattan_def)
  ultimately show "\<exists>a. Some a \<in> set (m_nodes session3x3) \<and>
      node_distance (heap session3x3) (2, 2) a < 2147483647" by blast
qed

text \<open>
  C2. In a state whose occupancy index and tree agree (\<open>consistent\<close>, which holds in
  every state of a session), a call of \<open>generateBranch\<close> that returns either leaves
  the occupancy index, the root, the set of tree nodes and every cell of the store as
  they were (\<open>unchanged\<close>), or adds exactly one fresh node to the tree, as the last child
  of a node of the tree, and registers it in the empty slot of its coordinate
  (\<open>grafted\<close>). When \<open>hasFinished\<close> is true or start and goal coincide the call returns
  the state itself, and so does any sequence of calls from a finished state. In a
  \<open>well_formed\<close> state of a session with \<open>exact_sampling\<close> (a level at most \<open>32768\<close>
  wide and high, a sample step \<open>m / 2 ^ j\<close> whose multiples up to the branch length
  are \<^verbatim>\<open>float\<close> values, as with the default \<open>1 / 4\<close> and \<open>15\<close>) every call returns, and
  its result is such a state again.
\<close>

theorem generateBranch_atomic:
  assumes "consistent s"
  shows "(\<forall>r1 r2 s'. generateBranch s r1 r2 = Some (Inr s') \<longrightarrow> unchanged s s' \<or> grafted s s') \<and>
         (\<forall>r1 r2 fin. hasFinished s = Inr fin \<and> (fin \<or> m_start s = m_end s) \<longrightarrow>
            generateBranch s r1 r2 = Some (Inr s)) \<and>
         (\<forall>rs. hasFinished s = Inr True \<longrightarrow> generateBranches s rs = Some (Inr s)) \<and>
         (well_formed s \<and> exact_sampling s \<longrightarrow>
            (\<forall>r1 r2. \<exists>s'. generateBranch s r1 r2 = Some (Inr s') \<and>
               well_formed s' \<and> exact_sampling s'))"
proof (intro conjI allI impI)
  fix r1 r2 s'
  assume "generateBranch s r1 r2 = Some (Inr s')"
  with assms show "unchanged s s' \<or> grafted s s'" by (rule generateBranch_outcome)
next
  fix r1 r2 fin
  assume "hasFinished s = Inr fin \<and> (fin \<or> m_start s = m_end s)"
  then show "generateBranch s r1 r2 = Some (Inr s)"
    using generateBranch_idle [of s fin r1 r2] by blast
next
  fix rs
  assume "hasFinished s = Inr True"
  then show "generateBranches s rs = Some (Inr s)" by (rule generateBranches_finished)
next
  fix r1 r2
  assume "well_formed s \<and> exact_sampling s"
  then have wf: "well_formed s" and exact: "exact_sampling s" by simp_all
  from generateBranch_total [OF wf exact]
  obtain s' where step: "generateBranch s r1 r2 = Some (Inr s')" by blast
  from generateBranch_well_formed [OF wf exact step] generateBranch_exact_sampling [OF exact step] step
  show "\<exists>s'. generateBranch s r1 r2 = Some (Inr s') \<and> well_formed s' \<and> exact_sampling s'"
    by blast
qed

theorem generateBranch_atomic_witness:
  "(unchanged prepared3x3 grown3x3 \<or> grafted prepared3x3 grown3x3) \<and>
   generateBranch finished3x3 0 0 = Some (Inr finished3x3) \<and>
   generateBranches finished3x3 [(0, 0), (1, 2), (5, 7)] = Some (Inr finished3x3) \<and>
   (\<forall>r1 r2. \<exists>s'. generateBranch prepared3x3 r1 r2 = Some (Inr s'))"
proof -
  have 1: "consistent prepared3x3" using prepare3x3 by (rule prepareTree_consistent)
  have 2: "consistent finished3x3" using prepare3x3_finished by (rule prepareTree_consistent)
  have 3: "hasFinished finished3x3 = Inr True"
    by (simp add: hasFinished_def finished3x3_def level3x3_def flatIndex_def to_unsigned_def)
  have "valid_level level3x3" "in_bounds level3x3 (0, 0)" "in_bounds level3x3 (2, 2)"
    by (simp_all add: valid_level_def in_bounds_def level3x3_def)
  from prepareTree_well_formed [OF this RRT_init_ready [OF RRT_init_default]]
  have 4: "well_formed prepared3x3" by (simp add: prepare3x3)
  have 5: "exact_sampling prepared3x3"
    using exact_default by (simp add: exact_sampling_def prepared3x3_def level3x3_def)
  from generateBranch_atomic [OF 1] grow3x3 generateBranch_atomic [OF 2] 3 4 5
  show ?thesis by blast
qed

text \<open>
  C3. In every state reached by \<open>prepareTree\<close> followed by calls of \<open>generateBranch\<close>,
  a slot of the occupancy index is occupied iff some node of the tree holds a coordinate
  with that flat index, every node of the tree has a slot, and no two nodes of the
  tree hold the same coordinate; the state after one more call of \<open>generateBranch\<close>
  satisfies the same.
\<close>

theorem occupancy_invariant:
  assumes "reachable s"
  shows "occupancy_matches_tree s \<and>
         (\<forall>r1 r2 s'. generateBranch s r1 r2 = Some (Inr s') \<longrightarrow> occupancy_matches_tree s')"
proof (intro conjI allI impI)
  show "occupancy_matches_tree s"
    using assms by (intro consistent_occupancy reachable_consistent)
next
  fix r1 r2 s'
  assume "generateBranch s r1 r2 = Some (Inr s')"
  with assms have "reachable s'" by (rule reachable.grow)
  then show "occupancy_matches_tree s'"
    by (intro consistent_occupancy reachable_consistent)
qed

theorem occupancy_invariant_witness:
  "occupancy_matches_tree prepared3x3 \<and> occupancy_matches_tree grown3x3"
proof -
  have "reachable prepared3x3" using prepare3x3 by (rule reachable.prepare)
  from occupancy_invariant [OF this] grow3x3 show ?thesis by blast
qed

text \<open>
  C7. When the flat indices of start and goal lie inside the occupancy index,
  \<open>hasFinished\<close> returns true iff both slots are occupied; and right after a
  \<open>prepareTree\<close> with start equal to goal it returns true.
\<close>

theorem hasFinished_iff:
  "(m_level s = Some L \<and> flatIndex (m_width L) (m_start s) < length (m_nodes s) \<and>
      flatIndex (m_width L) (m_end s) < length (m_nodes s) \<longrightarrow>
    hasFinished s = Inr (m_nodes s ! flatIndex (m_width L) (m_start s) \<noteq> None \<and>
                         m_nodes s ! flatIndex (m_width L) (m_end s) \<noteq> None)) \<and>
   (prepareTree s0 L' p p = Inr s' \<longrightarrow> hasFinished s' = Inr True)"
proof (intro conjI impI)
  assume "m_level s = Some L \<and> flatIndex (m_width L) (m_start s) < length (m_nodes s) \<and>
      flatIndex (m_width L) (m_end s) < length (m_nodes s)"
  then show "hasFinished s = Inr (m_nodes s ! flatIndex (m_width L) (m_start s) \<noteq> None \<and>
                         m_nodes s ! flatIndex (m_width L) (m_end s) \<noteq> None)"
    by (simp add: hasFinished_def Let_def)
next
  assume prep: "prepareTree s0 L' p p = Inr s'"
  note s' = prepareTree_success(1) [OF prep] and i = prepareTree_success(2) [OF prep]
  have "m_level s' = Some L'" "m_start s' = p" "m_end s' = p"
    "m_nodes s' = (replicate (length (m_tileData L') mod 4294967296) None)
                    [flatIndex (m_width L') p := Some (length (heap s0))]"
    by (subst s', simp)+
  with i show "hasFinished s' = Inr True"
    by (simp add: hasFinished_def Let_def)
qed

theorem hasFinished_iff_witness:
  "hasFinished grown3x3 = Inr False \<and> hasFinished finished3x3 = Inr True"
  using hasFinished_iff [of grown3x3 level3x3 rrt0 level3x3 "(1, 1)" finished3x3]
    prepare3x3_finished
  by (simp add: grown3x3_def level3x3_def flatIndex_def to_unsigned_def)




text \<open>
  C6 (the code departs from the claim). With the default parameters (sample step
  \<open>1/4\<close>, maximum branch length \<open>15\<close>) on a 9 by 16 level of terrain, start \<open>(8, 15)\<close>
  and the sample \<open>(0, 0)\<close>: the cursor stops at \<open>15\<close>, the interpolated point
  \<open>(8 - 120/17, 15 - 225/17)\<close> is truncated to \<open>(0, 1)\<close>, and the node grafted under
  the root \<open>(8, 15)\<close> lies at distance \<open>sqrt 260 > 15\<close> from it.
\<close>

theorem generateBranch_exceeds_branchDistance:
  "RRT_init (1 / 4) 15 = Inr rrt0 \<and>
   prepareTree rrt0 level9x16 (8, 15) (0, 0) = Inr prepared9x16 \<and>
   generateBranch prepared9x16 0 0 = Some (Inr grown9x16) \<and>
   deref (heap grown9x16) 2 = Some \<lparr>m_data = (0, 1), m_parent = Some 1, m_branches = []\<rparr> \<and>
   deref (heap grown9x16) 1 = Some \<lparr>m_data = (8, 15), m_parent = None, m_branches = [2]\<rparr> \<and>
   m_branchDistance grown9x16 < segment_length (8, 15) (0, 1)"
proof -
  have "sqrt 225 < sqrt 260" by (rule real_sqrt_less_mono) simp
  moreover have "sqrt 225 = 15" by (rule real_sqrt_unique) simp_all
  ultimately have "m_branchDistance grown9x16 < segment_length (8, 15) (0, 1)"
    by (simp add: grown9x16_def segment_length_def)
  then show ?thesis
    by (simp add: RRT_init_default prepare9x16 grow9x16 grown9x16_def deref_def)
qed

text \<open>
  C8 (the code departs from the claim). The copy assignment assigns the vector of
  child pointers only. Copying the root of a two-node tree gives a node with the
  default payload \<open>(0, 0)\<close> instead of \<open>(1, 2)\<close>, whose only child is the original's
  child at address \<open>1\<close>, not a copy of it; assigning the root to its child leaves the
  child's payload and parent as they were.
\<close>

theorem Tree_copy_shares_children:
  "Tree_copy family 0
     = Inr (2, family @ [Some \<lparr>m_data = (0, 0), m_parent = None, m_branches = [1]\<rparr>]) \<and>
   Tree_assign family 1 0
     = Inr [Some \<lparr>m_data = (1, 2), m_parent = None, m_branches = [1]\<rparr>,
            Some \<lparr>m_data = (3, 4), m_parent = Some 0, m_branches = [1]\<rparr>]"
  by (simp add: Tree_copy_def Tree_assign_def Tree_new_def deref_def family_def)

text \<open>
  C9 (the code departs from the claim). The assertion of \<open>prepareTree\<close> tests
  \<open>start.x\<close> against the width, \<open>end.x\<close> against zero and \<open>end.y\<close> against the
  height only. On the 3 by 3 level it lets the goal \<open>(7, 0)\<close> through and the
  operation succeeds; it lets the start \<open>(0, 3)\<close> through and the write to the
  occupancy index falls outside the vector; it rejects the start \<open>(-1, 0)\<close>.
\<close>

theorem prepareTree_assertion_incomplete:
  "\<not> in_bounds level3x3 (7, 0) \<and>
   prepareTree rrt0 level3x3 (0, 0) (7, 0) = Inr (prepared3x3\<lparr>m_end := (7, 0)\<rparr>) \<and>
   \<not> in_bounds level3x3 (0, 3) \<and>
   prepareTree rrt0 level3x3 (0, 3) (0, 0) = Inl OutOfRange \<and>
   prepareTree rrt0 level3x3 (- 1, 0) (0, 0) = Inl AssertionFailed"
  by (simp add: in_bounds_def prepare_defs rrt0_def level3x3_def prepared3x3_def replicate_9)

end
